theory Spec2Isabelle
  imports Main "HOL-Library.Word" "HOL-Library.Sublist"
begin

section \<open>The DT6220 controller interface (controller.py)\<close>

text \<open>
  A shallow embedding of the protocol code of \<^verbatim>\<open>controller.py\<close>: the exchange of
  \<^verbatim>\<open>ControlSocket.command\<close>, the header decoder \<^verbatim>\<open>DataSocket.inspect_header\<close> and the
  reassembly loop \<^verbatim>\<open>DataSocket.get_data\<close>. Python integers are \<open>int\<close>, bytes objects are
  lists of 8-bit words, \<^verbatim>\<open>str\<close> is \<open>string\<close>, and every exception the code can raise is a
  value of \<open>exn\<close>.
\<close>

subsection \<open>Exceptions\<close>

text \<open>
  \<^verbatim>\<open>DeviceError(message)\<close> is the only exception class of the module; its five message
  formats are the constructors of \<open>device_msg\<close>. The other constructors of \<open>exn\<close> are the
  built-in exceptions that escape the module's \<^verbatim>\<open>except\<close> clauses.
\<close>

datatype device_msg =
    CouldNotExecute string      \<comment> \<open>"Could not execute command {}"\<close>
  | UnknownCommand string       \<comment> \<open>"Unknown command: {}"\<close>
  | WrongParameter string       \<comment> \<open>"Wrong parameter in command {}"\<close>
  | UnexpectedResponse string   \<comment> \<open>"Unexpected response from device: {}"\<close>
  | OnlyChannels int            \<comment> \<open>"Device has only {} channels."\<close>

datatype exn =
    DeviceError device_msg
  | SocketTimeout               \<comment> \<open>\<^verbatim>\<open>socket.timeout\<close>\<close>
  | ValueError
  | IndexError
  | StructError                 \<comment> \<open>\<^verbatim>\<open>struct.error\<close>\<close>
  | UnicodeEncodeError
  | UnicodeDecodeError

subsection \<open>Python sequence primitives\<close>

type_synonym byte = "8 word"

text \<open>A slice bound \<open>i\<close> on a sequence of length \<open>n\<close>: negative bounds count from the end,
  and every bound is clamped into \<open>0..n\<close>.\<close>

definition py_index :: "int \<Rightarrow> nat \<Rightarrow> nat" where
  "py_index i n = (if i < 0 then nat (int n + i) else min (nat i) n)"

text \<open>\<^verbatim>\<open>xs[lo:hi]\<close>, \<^verbatim>\<open>xs[lo:]\<close> and \<^verbatim>\<open>xs[:hi]\<close>.\<close>

definition py_slice :: "int \<Rightarrow> int \<Rightarrow> 'a list \<Rightarrow> 'a list" where
  "py_slice lo hi xs =
     (let l = py_index lo (length xs); h = py_index hi (length xs)
      in take (h - l) (drop l xs))"

definition py_slice_from :: "int \<Rightarrow> 'a list \<Rightarrow> 'a list" where
  "py_slice_from lo xs = drop (py_index lo (length xs)) xs"

definition py_slice_upto :: "int \<Rightarrow> 'a list \<Rightarrow> 'a list" where
  "py_slice_upto hi xs = take (py_index hi (length xs)) xs"

text \<open>\<^verbatim>\<open>s.startswith(p)\<close>, \<^verbatim>\<open>s.endswith(p)\<close>, \<^verbatim>\<open>s.strip(chars)\<close>, \<^verbatim>\<open>s.replace(c, "")\<close> for a
  one-character \<open>c\<close>, and \<^verbatim>\<open>s.count(c)\<close>.\<close>

definition py_startswith :: "string \<Rightarrow> string \<Rightarrow> bool" where
  "py_startswith p s = (take (length p) s = p)"

definition py_endswith :: "string \<Rightarrow> string \<Rightarrow> bool" where
  "py_endswith p s = (length p \<le> length s \<and> drop (length s - length p) s = p)"

definition py_strip :: "string \<Rightarrow> string \<Rightarrow> string" where
  "py_strip chars s =
     rev (dropWhile (\<lambda>c. c \<in> set chars) (rev (dropWhile (\<lambda>c. c \<in> set chars) s)))"

definition py_remove :: "char \<Rightarrow> string \<Rightarrow> string" where
  "py_remove c s = filter (\<lambda>d. d \<noteq> c) s"

definition py_count :: "char \<Rightarrow> string \<Rightarrow> nat" where
  "py_count c s = length (filter (\<lambda>d. d = c) s)"

text \<open>\<^verbatim>\<open>s.encode('ascii')\<close> and \<^verbatim>\<open>b.decode('ascii')\<close>: \<open>None\<close> is the Unicode error raised on a
  character or byte outside \<open>0..127\<close>.\<close>

definition encode_ascii :: "string \<Rightarrow> byte list option" where
  "encode_ascii s =
     (if list_all (\<lambda>c. (of_char c :: nat) < 128) s then Some (map of_char s) else None)"

definition decode_ascii :: "byte list \<Rightarrow> string option" where
  "decode_ascii bs =
     (if list_all (\<lambda>b. unat b < 128) bs then Some (map (\<lambda>b. char_of (unat b)) bs) else None)"

abbreviation CR :: char where "CR \<equiv> CHR 0x0D"
abbreviation LF :: char where "LF \<equiv> CHR 0x0A"

subsection \<open>ControlSocket.command\<close>

text \<open>
  The telnet connection is a function from the bytes written to the bytes that
  \<^verbatim>\<open>read_eager\<close> returns after the pause; \<open>None\<close> stands for an \<^verbatim>\<open>OSError\<close> or
  \<^verbatim>\<open>EOFError\<close> raised by the write or by the read.
\<close>

type_synonym telnet = "byte list \<Rightarrow> byte list option"

definition command :: "telnet \<Rightarrow> string \<Rightarrow> exn + string" where
  "command control_socket com0 =
     (let com = py_remove LF (py_remove CR com0) in
      case encode_ascii com of
        None \<Rightarrow> Inl UnicodeEncodeError
      | Some cb \<Rightarrow>
     (case control_socket ([0x24] @ cb @ [0x0D, 0x0A]) of
        None \<Rightarrow> Inl (DeviceError (CouldNotExecute com))
      | Some raw \<Rightarrow>
     (case decode_ascii raw of
        None \<Rightarrow> Inl UnicodeDecodeError
      | Some text \<Rightarrow>
     (let response = py_strip [CR, LF] text in
      if py_startswith (''$'' @ com) response then
        (let response = py_slice_from (int (length com) + 1) response in
         if py_endswith ''OK'' response then Inr (py_slice_upto (- 2) response)
         else if response = ''$UNKNOWN COMMAND'' then Inl (DeviceError (UnknownCommand com))
         else if response = ''$WRONG PARAMETER'' then Inl (DeviceError (WrongParameter com))
         else Inl (DeviceError (UnexpectedResponse response)))
      else Inl (DeviceError (UnexpectedResponse response))))))"

subsection \<open>DataSocket.inspect_header\<close>

text \<open>\<^verbatim>\<open>struct.unpack\<close> with a little-endian format: an unsigned value is the base-256
  number of its bytes, a signed field of \<open>n\<close> bytes is its two's complement reading.\<close>

fun le_uint :: "byte list \<Rightarrow> int" where
  "le_uint [] = 0"
| "le_uint (b # bs) = uint b + 256 * le_uint bs"

definition le_sint :: "byte list \<Rightarrow> int" where
  "le_sint bs =
     (let u = le_uint bs; n = 8 * length bs
      in if n \<noteq> 0 \<and> 2 ^ (n - 1) \<le> u then u - 2 ^ n else u)"

text \<open>The fields of \<^verbatim>\<open>'<iiiqihhi'\<close>: sizes 4, 4, 4, 8, 4, 2, 2, 4 at offsets
  0, 4, 8, 12, 20, 24, 26, 28. A buffer that is not 32 bytes long raises \<^verbatim>\<open>struct.error\<close>.\<close>

definition unpack_header :: "byte list \<Rightarrow> exn + int list" where
  "unpack_header b =
     (if length b \<noteq> 32 then Inl StructError
      else Inr [le_sint (py_slice 0 4 b), le_sint (py_slice 4 8 b), le_sint (py_slice 8 12 b),
                le_sint (py_slice 12 20 b), le_sint (py_slice 20 24 b),
                le_sint (py_slice 24 26 b), le_sint (py_slice 26 28 b),
                le_sint (py_slice 28 32 b)])"

text \<open>\<^verbatim>\<open>'{0:064b}'.format(i)\<close>: the binary digits of \<open>|i|\<close>, zero-padded to a total width
  of 64 characters, the sign (if any) in front of the padding.\<close>

fun bin_digits :: "nat \<Rightarrow> string" where
  "bin_digits n =
     (if n < 2 then [if n = 0 then CHR ''0'' else CHR ''1'']
      else bin_digits (n div 2) @ [if n mod 2 = 0 then CHR ''0'' else CHR ''1''])"

declare bin_digits.simps [simp del]

definition format_064b :: "int \<Rightarrow> string" where
  "format_064b i =
     (let ds = bin_digits (nat \<bar>i\<bar>);
          sign = (if i < 0 then ''-'' else '''')
      in sign @ replicate (64 - length sign - length ds) (CHR ''0'') @ ds)"

definition inspect_header :: "byte list \<Rightarrow> exn + int \<times> int \<times> int \<times> int" where
  "inspect_header data_stream =
     (case unpack_header (py_slice 0 32 data_stream) of
        Inl e \<Rightarrow> Inl e
      | Inr header \<Rightarrow>
          (let channel_field = header ! 3;
               nr_of_channels = int (py_count (CHR ''1'') (format_064b channel_field));
               nr_of_frames = header ! 6;
               bytes_per_frame = header ! 5;
               payload_size = bytes_per_frame * nr_of_frames
           in Inr (nr_of_channels, nr_of_frames, bytes_per_frame, payload_size)))"

subsection \<open>DataSocket.get_data\<close>

text \<open>
  The data socket is the list of the outcomes of its successive \<^verbatim>\<open>recv(65536)\<close> calls: a
  chunk of bytes or a \<^verbatim>\<open>socket.timeout\<close>. Once the list is used up every further call
  times out.
\<close>

datatype recv_result = Recv "byte list" | RecvTimeout

type_synonym reader = "recv_result list"

text \<open>The arrays that \<^verbatim>\<open>get_data\<close> returns: one-dimensional, or two-dimensional as the list
  of its rows.\<close>

datatype ndarray = Arr1 "int list" | Arr2 "int list list"

text \<open>The local variables of \<^verbatim>\<open>get_data\<close> and the socket.\<close>

record pull_state =
  data_stream :: "byte list"
  data :: "int list list"
  received_data_points :: nat
  data_socket :: reader

text \<open>
  A finished call: the value returned or the exception raised, together with the last
  value of the local buffer \<open>data_stream\<close> and the outcomes the socket has left. The
  Python call gives its caller only the first component.
\<close>

type_synonym pull_result = "(exn + ndarray) \<times> byte list \<times> reader"

text \<open>\<^verbatim>\<open>while len(data_stream) < n: data_stream += self.data_socket.recv(65536)\<close>.
  The flag is \<open>False\<close> when a \<^verbatim>\<open>recv\<close> raised \<^verbatim>\<open>socket.timeout\<close>.\<close>

fun recv_until :: "int \<Rightarrow> byte list \<Rightarrow> reader \<Rightarrow> bool \<times> byte list \<times> reader" where
  "recv_until n buf [] = (if int (length buf) < n then (False, buf, []) else (True, buf, []))"
| "recv_until n buf (RecvTimeout # r) =
     (if int (length buf) < n then (False, buf, r) else (True, buf, RecvTimeout # r))"
| "recv_until n buf (Recv c # r) =
     (if int (length buf) < n then recv_until n (buf @ c) r else (True, buf, Recv c # r))"

text \<open>\<^verbatim>\<open>max(channels)\<close> raises \<^verbatim>\<open>ValueError\<close> on an empty sequence.\<close>

definition py_max :: "int list \<Rightarrow> exn + int" where
  "py_max xs = (case xs of [] \<Rightarrow> Inl ValueError | x # ys \<Rightarrow> Inr (fold max ys x))"

text \<open>
  \<^verbatim>\<open>np.frombuffer(b, data_type)\<close>, where \<^verbatim>\<open>data_type = np.dtype(int).newbyteorder('<')\<close> is
  the little-endian signed integer of \<open>itemsize\<close> bytes. The size of \<^verbatim>\<open>np.dtype(int)\<close> is
  fixed by the platform and the NumPy version (4 where it is a 32-bit C long, 8 otherwise),
  not by \<^verbatim>\<open>controller.py\<close>, so it is a parameter here.
\<close>

definition frombuffer :: "nat \<Rightarrow> byte list \<Rightarrow> exn + int list" where
  "frombuffer itemsize b =
     (if length b mod itemsize \<noteq> 0 then Inl ValueError
      else Inr (map (\<lambda>k. le_sint (take itemsize (drop (k * itemsize) b)))
                    [0..<length b div itemsize]))"

text \<open>\<^verbatim>\<open>arr[channels]\<close> for a list of integer indices: negative indices count from the
  end, an index out of bounds raises \<^verbatim>\<open>IndexError\<close>.\<close>

definition take_channels :: "int list \<Rightarrow> int list \<Rightarrow> exn + int list" where
  "take_channels arr channels =
     (let n = int (length arr)
      in if list_all (\<lambda>c. - n \<le> c \<and> c < n) channels
         then Inr (map (\<lambda>c. arr ! nat (if c < 0 then n + c else c)) channels)
         else Inl IndexError)"

text \<open>The row that one frame gives:
  \<^verbatim>\<open>np.frombuffer(payload[i*bytes_per_frame:(i+1)*bytes_per_frame], data_type)[channels]\<close>.\<close>

definition frame_row :: "nat \<Rightarrow> int list \<Rightarrow> byte list \<Rightarrow> int \<Rightarrow> nat \<Rightarrow> exn + int list" where
  "frame_row itemsize channels payload bytes_per_frame i =
     (case frombuffer itemsize
             (py_slice (int i * bytes_per_frame) ((int i + 1) * bytes_per_frame) payload) of
        Inl e \<Rightarrow> Inl e
      | Inr arr \<Rightarrow> take_channels arr channels)"

text \<open>The \<^verbatim>\<open>for i in range(nr_of_frames)\<close> loop over the remaining values of \<open>i\<close>.\<close>

fun frames_loop ::
  "nat \<Rightarrow> nat \<Rightarrow> int list \<Rightarrow> byte list \<Rightarrow> int \<Rightarrow> nat list \<Rightarrow> int list list \<times> nat
     \<Rightarrow> exn + int list list \<times> nat" where
  "frames_loop itemsize data_points channels payload bytes_per_frame [] (dat, received) =
     Inr (dat, received)"
| "frames_loop itemsize data_points channels payload bytes_per_frame (i # rest) (dat, received) =
     (if received < data_points then
        (case frame_row itemsize channels payload bytes_per_frame i of
           Inl e \<Rightarrow> Inl e
         | Inr row \<Rightarrow>
             frames_loop itemsize data_points channels payload bytes_per_frame rest
               (dat[received := row], Suc received))
      else Inr (dat, received))"

text \<open>One pass through the body of \<^verbatim>\<open>while received_data_points < data_points\<close>: the call
  ends there (\<open>Stop\<close>) or the loop goes on with the new values of the variables.\<close>

datatype step = Stop pull_result | Continue pull_state

definition loop_body :: "nat \<Rightarrow> nat \<Rightarrow> int list \<Rightarrow> pull_state \<Rightarrow> step" where
  "loop_body itemsize data_points channels s =
     (case recv_until 32 (data_stream s) (data_socket s) of
        (False, buf, r) \<Rightarrow> Stop (Inr (Arr2 (data s)), buf, r)
      | (True, buf, r) \<Rightarrow>
     (case inspect_header buf of
        Inl e \<Rightarrow> Stop (Inl e, buf, r)
      | Inr (nr_of_channels, nr_of_frames, bytes_per_frame, payload_size) \<Rightarrow>
     (case py_max channels of
        Inl e \<Rightarrow> Stop (Inl e, buf, r)
      | Inr m \<Rightarrow>
      if m + 1 > nr_of_channels then Stop (Inl (DeviceError (OnlyChannels nr_of_channels)), buf, r)
      else
     (case recv_until (32 + payload_size) buf r of
        (False, buf', r') \<Rightarrow> Stop (Inl SocketTimeout, buf', r')
      | (True, buf', r') \<Rightarrow>
     (let payload = py_slice 32 (32 + payload_size) buf' in
      case frames_loop itemsize data_points channels payload bytes_per_frame
             [0..<nat nr_of_frames] (data s, received_data_points s) of
        Inl e \<Rightarrow> Stop (Inl e, buf', r')
      | Inr (dat, received) \<Rightarrow>
          Continue \<lparr>data_stream = py_slice_from (32 + payload_size) buf', data = dat,
                    received_data_points = received, data_socket = r'\<rparr>)))))"

text \<open>\<^verbatim>\<open>data.T\<close> of an array with \<open>ncols\<close> columns, and the two returns at the end of
  \<^verbatim>\<open>get_data\<close>.\<close>

definition transpose_data :: "nat \<Rightarrow> int list list \<Rightarrow> int list list" where
  "transpose_data ncols rows = map (\<lambda>j. map (\<lambda>row. row ! j) rows) [0..<ncols]"

definition oriented :: "int list \<Rightarrow> int list list \<Rightarrow> ndarray" where
  "oriented channels dat =
     (if length channels = 1 then Arr1 (transpose_data (length channels) dat ! 0)
      else Arr2 (transpose_data (length channels) dat))"

text \<open>The outer loop. Nothing bounds the number of its passes (a header whose payload
  size is \<open>-32\<close> leaves the buffer as it is), so a call that never returns is \<open>None\<close>.\<close>

partial_function (option) get_data_loop ::
  "nat \<Rightarrow> nat \<Rightarrow> int list \<Rightarrow> pull_state \<Rightarrow> pull_result option" where
  "get_data_loop itemsize data_points channels s =
     (if received_data_points s < data_points then
        (case loop_body itemsize data_points channels s of
           Stop res \<Rightarrow> Some res
         | Continue s' \<Rightarrow> get_data_loop itemsize data_points channels s')
      else Some (Inr (oriented channels (data s)), data_stream s, data_socket s))"

text \<open>\<^verbatim>\<open>np.zeros\<close> raises \<^verbatim>\<open>ValueError\<close> on a negative dimension.\<close>

definition get_data :: "nat \<Rightarrow> int \<Rightarrow> int list \<Rightarrow> reader \<Rightarrow> pull_result option" where
  "get_data itemsize data_points channels sock =
     (if data_points < 0 then Some (Inl ValueError, [], sock)
      else get_data_loop itemsize (nat data_points) channels
             \<lparr>data_stream = [], data = replicate (nat data_points) (replicate (length channels) 0),
              received_data_points = 0, data_socket = sock\<rparr>)"

declare get_data_loop.simps [code]

text \<open>Two calls of \<^verbatim>\<open>get_data\<close> in a row on the same socket. Each call starts with its own
  empty \<open>data_stream\<close>; the second call reads what the first has left on the socket.\<close>

definition get_data_twice ::
  "nat \<Rightarrow> int \<Rightarrow> int \<Rightarrow> int list \<Rightarrow> reader \<Rightarrow> ((exn + ndarray) \<times> (exn + ndarray)) option" where
  "get_data_twice itemsize n1 n2 channels sock =
     (case get_data itemsize n1 channels sock of
        None \<Rightarrow> None
      | Some (first, buf, sock') \<Rightarrow>
          (case get_data itemsize n2 channels sock' of
             None \<Rightarrow> None
           | Some (second, buf', sock'') \<Rightarrow> Some (first, second)))"

subsection \<open>Packets of the data port\<close>

text \<open>
  A packet is a 32-byte header followed by its payload. It is well formed when the
  payload has the length that \<open>inspect_header\<close> computes from the header.
\<close>

type_synonym packet = "byte list \<times> byte list"

definition packet_bytes :: "packet \<Rightarrow> byte list" where
  "packet_bytes p = fst p @ snd p"

definition well_formed :: "packet \<Rightarrow> bool" where
  "well_formed p =
     (length (fst p) = 32 \<and>
      (case inspect_header (fst p) of
         Inl e \<Rightarrow> False
       | Inr (nr_of_channels, nr_of_frames, bytes_per_frame, payload_size) \<Rightarrow>
           int (length (snd p)) = payload_size))"

text \<open>
  The loop of \<open>get_data\<close> read packet by packet: what a call does with a stream that is
  cut into packets, and the packets that it leaves unread.
\<close>

fun run_packets ::
  "nat \<Rightarrow> nat \<Rightarrow> int list \<Rightarrow> packet list \<Rightarrow> int list list \<times> nat
     \<Rightarrow> (exn + ndarray) \<times> packet list" where
  "run_packets itemsize data_points channels [] (dat, received) =
     (if received < data_points then (Inr (Arr2 dat), [])
      else (Inr (oriented channels dat), []))"
| "run_packets itemsize data_points channels (p # ps) (dat, received) =
     (if received < data_points then
        (case inspect_header (fst p) of
           Inl e \<Rightarrow> (Inl e, p # ps)
         | Inr (nr_of_channels, nr_of_frames, bytes_per_frame, payload_size) \<Rightarrow>
        (case py_max channels of
           Inl e \<Rightarrow> (Inl e, p # ps)
         | Inr m \<Rightarrow>
         if m + 1 > nr_of_channels
         then (Inl (DeviceError (OnlyChannels nr_of_channels)), p # ps)
         else
        (case frames_loop itemsize data_points channels (snd p) bytes_per_frame
                [0..<nat nr_of_frames] (dat, received) of
           Inl e \<Rightarrow> (Inl e, p # ps)
         | Inr st \<Rightarrow> run_packets itemsize data_points channels ps st)))
      else (Inr (oriented channels dat), p # ps))"

text \<open>The rows that the frames of a packet give for the requested channels.\<close>

definition packet_rows :: "nat \<Rightarrow> int list \<Rightarrow> packet \<Rightarrow> (exn + int list) list" where
  "packet_rows itemsize channels p =
     (case inspect_header (fst p) of
        Inl e \<Rightarrow> []
      | Inr (nr_of_channels, nr_of_frames, bytes_per_frame, payload_size) \<Rightarrow>
          map (frame_row itemsize channels (snd p) bytes_per_frame) [0..<nat nr_of_frames])"

definition rows_of :: "nat \<Rightarrow> int list \<Rightarrow> packet \<Rightarrow> int list list" where
  "rows_of itemsize channels p = map projr (packet_rows itemsize channels p)"

text \<open>A packet is readable for a request when it is well formed, reports all the
  requested channels, and each of its frames gives a row.\<close>

definition readable :: "nat \<Rightarrow> int list \<Rightarrow> packet \<Rightarrow> bool" where
  "readable itemsize channels p =
     (well_formed p \<and>
      (case inspect_header (fst p) of
         Inl e \<Rightarrow> False
       | Inr (nr_of_channels, nr_of_frames, bytes_per_frame, payload_size) \<Rightarrow>
           (case py_max channels of Inl e \<Rightarrow> False | Inr m \<Rightarrow> m < nr_of_channels)) \<and>
      list_all (\<lambda>row. \<not> isl row) (packet_rows itemsize channels p))"

text \<open>The number of packets that it takes to collect \<open>n\<close> samples from packets with the
  given numbers of frames.\<close>

fun packets_used :: "nat \<Rightarrow> nat list \<Rightarrow> nat" where
  "packets_used n [] = 0"
| "packets_used n (f # fs) = (if n = 0 then 0 else Suc (packets_used (n - f) fs))"

text \<open>
  The packet of the scenario: preamble \<open>MEAS\<close>, presence field \<open>0101\<close> (channels 0 and 1),
  8 bytes per frame at offset 24, 3 frames at offset 26, and the frames
  \<open>(10, 20)\<close>, \<open>(11, 21)\<close>, \<open>(12, 22)\<close> as 4-byte integers. \<open>swapped_header\<close> is the same
  header with the two 16-bit fields exchanged: 3 at offset 24 and 8 at offset 26.
\<close>

definition scenario_header :: "byte list" where
  "scenario_header =
     [0x4D, 0x45, 0x41, 0x53,  0, 0, 0, 0,  0, 0, 0, 0,  5, 0, 0, 0, 0, 0, 0, 0,
      0, 0, 0, 0,  8, 0,  3, 0,  0, 0, 0, 0]"

definition swapped_header :: "byte list" where
  "swapped_header =
     [0x4D, 0x45, 0x41, 0x53,  0, 0, 0, 0,  0, 0, 0, 0,  5, 0, 0, 0, 0, 0, 0, 0,
      0, 0, 0, 0,  3, 0,  8, 0,  0, 0, 0, 0]"

definition scenario_payload :: "byte list" where
  "scenario_payload =
     [10, 0, 0, 0,  20, 0, 0, 0,  11, 0, 0, 0,  21, 0, 0, 0,  12, 0, 0, 0,  22, 0, 0, 0]"

subsection \<open>Replies of the controller\<close>

text \<open>
  Three replies as \<^verbatim>\<open>read_eager\<close> may return them: \<open>$VER1.2OK\<close> between two CR LF
  pairs, and \<open>$VER$UNKNOWN COMMAND\<close> and \<open>$STSA1;\<close>, each followed by CR LF.
\<close>

definition reply_ok :: "byte list" where
  "reply_ok = [0x0D, 0x0A, 0x24, 0x56, 0x45, 0x52, 0x31, 0x2E, 0x32, 0x4F, 0x4B, 0x0D, 0x0A]"

definition reply_unknown :: "byte list" where
  "reply_unknown = [0x24, 0x56, 0x45, 0x52, 0x24, 0x55, 0x4E, 0x4B, 0x4E, 0x4F, 0x57, 0x4E, 0x20,
                    0x43, 0x4F, 0x4D, 0x4D, 0x41, 0x4E, 0x44, 0x0D, 0x0A]"

definition reply_partial :: "byte list" where
  "reply_partial = [0x24, 0x53, 0x54, 0x53, 0x41, 0x31, 0x3B, 0x0D, 0x0A]"

subsection \<open>The header fields as the specification words them\<close>

text \<open>The 16-bit little-endian integer at a byte offset, unsigned and signed.\<close>

definition uint16_at :: "nat \<Rightarrow> byte list \<Rightarrow> int" where
  "uint16_at k b = uint (word_cat (b ! (k + 1)) (b ! k) :: 16 word)"

definition sint16_at :: "nat \<Rightarrow> byte list \<Rightarrow> int" where
  "sint16_at k b = sint (word_cat (b ! (k + 1)) (b ! k) :: 16 word)"

text \<open>The 8-byte presence field at offset 12 as a little-endian number, unsigned and
  signed, its 2-bit groups (group \<open>k\<close> for channel slot \<open>k\<close>), and the number of groups
  equal to \<open>01\<close>.\<close>

definition presence_field :: "byte list \<Rightarrow> int" where
  "presence_field b = le_uint (take 8 (drop 12 b))"

definition presence_signed :: "byte list \<Rightarrow> int" where
  "presence_signed b =
     (if 2 ^ 63 \<le> presence_field b then presence_field b - 2 ^ 64 else presence_field b)"

definition presence_group :: "byte list \<Rightarrow> nat \<Rightarrow> int" where
  "presence_group b k = (presence_field b div 4 ^ k) mod 4"

definition groups_01 :: "byte list \<Rightarrow> nat" where
  "groups_01 b = length (filter (\<lambda>k. presence_group b k = 1) [0..<32])"

text \<open>The number of 1 bits of a natural number.\<close>

fun ones :: "nat \<Rightarrow> nat" where
  "ones n = (if n = 0 then 0 else n mod 2 + ones (n div 2))"

declare ones.simps [simp del]

text \<open>The result that the specification claims for \<open>decode_header\<close>: the number of
  groups equal to \<open>01\<close>, the frame count as the unsigned 16-bit integer at offset 24, the
  bytes per frame as the unsigned 16-bit integer at offset 26, and their product.\<close>

definition claimed_fields :: "byte list \<Rightarrow> int \<times> int \<times> int \<times> int" where
  "claimed_fields b =
     (int (groups_01 b), uint16_at 24 b, uint16_at 26 b, uint16_at 24 b * uint16_at 26 b)"

text \<open>Two more headers: \<open>negative_header\<close> has \<open>0xFFFF\<close> in both 16-bit fields,
  \<open>pair11_header\<close> has the group \<open>11\<close> in slot 0 of the presence field and 8 in both
  16-bit fields.\<close>

definition negative_header :: "byte list" where
  "negative_header =
     [0x4D, 0x45, 0x41, 0x53,  0, 0, 0, 0,  0, 0, 0, 0,  5, 0, 0, 0, 0, 0, 0, 0,
      0, 0, 0, 0,  0xFF, 0xFF,  0xFF, 0xFF,  0, 0, 0, 0]"

definition pair11_header :: "byte list" where
  "pair11_header =
     [0x4D, 0x45, 0x41, 0x53,  0, 0, 0, 0,  0, 0, 0, 0,  3, 0, 0, 0, 0, 0, 0, 0,
      0, 0, 0, 0,  8, 0,  8, 0,  0, 0, 0, 0]"

section \<open>Lemmas about the model\<close>

subsection \<open>Filling the buffer\<close>

lemma recv_until_enough:
  "n \<le> int (length buf) \<Longrightarrow> recv_until n buf r = (True, buf, r)"
  by (cases "(n, buf, r)" rule: recv_until.cases) auto

lemma recv_until_short:
  "int (length (buf @ concat cs)) < n \<Longrightarrow>
   recv_until n buf (map Recv cs @ RecvTimeout # r) = (False, buf @ concat cs, r)"
  by (induction cs arbitrary: buf) auto

lemma recv_until_short_end:
  "int (length (buf @ concat cs)) < n \<Longrightarrow>
   recv_until n buf (map Recv cs) = (False, buf @ concat cs, [])"
  by (induction cs arbitrary: buf) auto

lemma recv_until_filled:
  "n \<le> int (length (buf @ concat cs)) \<Longrightarrow>
   \<exists>buf' cs'. recv_until n buf (map Recv cs @ r) = (True, buf', map Recv cs' @ r)
      \<and> buf' @ concat cs' = buf @ concat cs \<and> n \<le> int (length buf') \<and> prefix buf buf'"
proof (induction cs arbitrary: buf)
  case Nil
  then have "recv_until n buf r = (True, buf, r)" by (simp add: recv_until_enough)
  then show ?case using Nil by (intro exI [of _ buf] exI [of _ "[]"]) simp
next
  case (Cons c cs)
  show ?case
  proof (cases "int (length buf) < n")
    case False
    then have "recv_until n buf (map Recv (c # cs) @ r) = (True, buf, map Recv (c # cs) @ r)"
      by (simp add: recv_until_enough)
    then show ?thesis using False by (intro exI [of _ buf] exI [of _ "c # cs"]) simp
  next
    case True
    from Cons.prems have "n \<le> int (length ((buf @ c) @ concat cs))" by simp
    from Cons.IH [OF this] obtain buf' cs' where
      h: "recv_until n (buf @ c) (map Recv cs @ r) = (True, buf', map Recv cs' @ r)"
         "buf' @ concat cs' = (buf @ c) @ concat cs" "n \<le> int (length buf')" "prefix (buf @ c) buf'"
      by blast
    from h(4) have "prefix buf buf'" by (metis append_prefixD)
    with h True show ?thesis by (intro exI [of _ buf'] exI [of _ cs']) simp
  qed
qed

lemma py_slice_0 [simp]: "0 \<le> n \<Longrightarrow> py_slice 0 n b = take (nat n) b"
  by (simp add: py_slice_def py_index_def min_def)

lemma inspect_header_take:
  "inspect_header (take 32 b) = inspect_header b"
  by (simp add: inspect_header_def)

lemma inspect_header_prefix:
  assumes "prefix b b'" "32 \<le> length b"
  shows "inspect_header b' = inspect_header b"
proof -
  from assms obtain t where "b' = b @ t" by (auto simp: prefix_def)
  with assms(2) have "take 32 b' = take 32 b" by simp
  then show ?thesis by (metis inspect_header_take)
qed

subsection \<open>The loop on a stream of well-formed packets\<close>

lemma split_buffer:
  assumes "buf @ rest = h @ t" "length h \<le> length buf"
  shows "\<exists>u. buf = h @ u \<and> u @ rest = t"
  using assms by (auto simp: append_eq_append_conv2)

lemma py_slice_payload:
  "length h = 32 \<Longrightarrow> py_slice 32 (32 + int (length pl)) (h @ pl @ u) = pl"
  by (simp add: py_slice_def py_index_def min_def nat_add_distrib)

lemma py_slice_from_packet:
  "length h = 32 \<Longrightarrow> py_slice_from (32 + int (length pl)) (h @ pl @ u) = u"
  by (simp add: py_slice_from_def py_index_def min_def nat_add_distrib)

lemma loop_run_packets:
  assumes "list_all well_formed pkts"
    and "data_socket s = map Recv cs"
    and "data_stream s @ concat cs = concat (map packet_bytes pkts)"
  shows "\<exists>b cs'. get_data_loop itemsize data_points channels s
            = Some (fst (run_packets itemsize data_points channels pkts
                           (data s, received_data_points s)), b, map Recv cs')
          \<and> b @ concat cs' = concat (map packet_bytes
                (snd (run_packets itemsize data_points channels pkts
                           (data s, received_data_points s))))"
  using assms
proof (induction pkts arbitrary: s cs)
  case Nil
  then have e: "data_stream s = []" "concat cs = []" by simp_all
  show ?case
  proof (cases "received_data_points s < data_points")
    case True
    have "recv_until 32 (data_stream s) (data_socket s) = (False, [], [])"
      using recv_until_short_end [of "[]" cs 32] e Nil.prems(2) by simp
    with True show ?thesis
      by (subst get_data_loop.simps) (simp add: loop_body_def)
  next
    case False
    then have "get_data_loop itemsize data_points channels s
                 = Some (Inr (oriented channels (data s)), [], map Recv cs)"
      using e Nil.prems(2) by (subst get_data_loop.simps) simp
    with False e show ?thesis
      by (intro exI [of _ "[]"] exI [of _ cs]) simp
  qed
next
  case (Cons p ps)
  let ?all = "data_stream s @ concat cs"
  let ?rest = "concat (map packet_bytes ps)"
  from Cons.prems(1) have wf: "well_formed p" and wfs: "list_all well_formed ps" by simp_all
  from wf obtain nc nf bpf psz where
    hlen: "length (fst p) = 32" and hdr: "inspect_header (fst p) = Inr (nc, nf, bpf, psz)"
    and plen: "int (length (snd p)) = psz"
    by (auto simp: well_formed_def split: sum.splits)
  have pb: "packet_bytes p = fst p @ snd p" by (simp add: packet_bytes_def)
  have all: "?all = fst p @ snd p @ ?rest"
    using Cons.prems(3) pb by simp
  show ?case
  proof (cases "received_data_points s < data_points")
    case False
    then have "get_data_loop itemsize data_points channels s
                 = Some (Inr (oriented channels (data s)), data_stream s, map Recv cs)"
      using Cons.prems(2) by (subst get_data_loop.simps) simp
    with False Cons.prems(3) show ?thesis
      by (intro exI [of _ "data_stream s"] exI [of _ cs]) simp
  next
    case True
    have "32 \<le> int (length ?all)" using all hlen by simp
    from recv_until_filled [OF this, of "[]"] obtain b1 c1 where
      r1: "recv_until 32 (data_stream s) (data_socket s) = (True, b1, map Recv c1)"
      and a1: "b1 @ concat c1 = ?all" and l1: "32 \<le> int (length b1)"
      using Cons.prems(2) by auto
    from split_buffer [of b1 "concat c1" "fst p" "snd p @ ?rest"] a1 all l1 hlen
    obtain u1 where u1: "b1 = fst p @ u1" by auto
    then have "prefix (fst p) b1" by simp
    with hlen have h1: "inspect_header b1 = Inr (nc, nf, bpf, psz)"
      using hdr inspect_header_prefix [of "fst p" b1] by simp
    show ?thesis
    proof (cases "py_max channels")
      case (Inl e)
      with True r1 h1 have "get_data_loop itemsize data_points channels s
                              = Some (Inl e, b1, map Recv c1)"
        by (subst get_data_loop.simps) (simp add: loop_body_def)
      with Inl True hdr a1 Cons.prems(3) show ?thesis
        by (intro exI [of _ b1] exI [of _ c1]) simp
    next
      case (Inr m)
      show ?thesis
      proof (cases "m + 1 > nc")
        case bad: True
        with True r1 h1 Inr have "get_data_loop itemsize data_points channels s
                = Some (Inl (DeviceError (OnlyChannels nc)), b1, map Recv c1)"
          by (subst get_data_loop.simps) (simp add: loop_body_def)
        with bad Inr True hdr a1 Cons.prems(3) show ?thesis
          by (intro exI [of _ b1] exI [of _ c1]) simp
      next
        case ok: False
        have "32 + psz \<le> int (length (b1 @ concat c1))"
          using a1 all hlen plen by simp
        from recv_until_filled [OF this, of "[]"] obtain b2 c2 where
          r2: "recv_until (32 + psz) b1 (map Recv c1) = (True, b2, map Recv c2)"
          and a2: "b2 @ concat c2 = b1 @ concat c1" and l2: "32 + psz \<le> int (length b2)"
          by auto
        have "b2 @ concat c2 = (fst p @ snd p) @ ?rest" using a2 a1 all by simp
        moreover have "length (fst p @ snd p) \<le> length b2" using l2 hlen plen by simp
        ultimately obtain u2 where u2: "b2 = (fst p @ snd p) @ u2" "u2 @ concat c2 = ?rest"
          using split_buffer [of b2 "concat c2" "fst p @ snd p" ?rest] by blast
        have pay: "py_slice 32 (32 + psz) b2 = snd p"
          using u2(1) py_slice_payload [OF hlen, of "snd p" u2] plen by simp
        have nxt: "py_slice_from (32 + psz) b2 = u2"
          using u2(1) py_slice_from_packet [OF hlen, of "snd p" u2] plen by simp
        show ?thesis
        proof (cases "frames_loop itemsize data_points channels (snd p) bpf [0..<nat nf]
                        (data s, received_data_points s)")
          case (Inl e)
          have "b2 @ concat c2 = concat (map packet_bytes (p # ps))"
            using a2 a1 Cons.prems(3) by simp
          moreover from Inl True r1 h1 Inr ok r2 pay
          have "get_data_loop itemsize data_points channels s
                  = Some (Inl e, b2, map Recv c2)"
            by (subst get_data_loop.simps) (simp add: loop_body_def)
          ultimately show ?thesis using Inl True hdr Inr ok
            by (intro exI [of _ b2] exI [of _ c2]) simp
        next
          case fr: (Inr st)
          obtain dat' rec' where st: "st = (dat', rec')" by (cases st)
          let ?s' = "\<lparr>data_stream = u2, data = dat', received_data_points = rec',
                      data_socket = map Recv c2\<rparr>"
          have step: "get_data_loop itemsize data_points channels s
                        = get_data_loop itemsize data_points channels ?s'"
            using fr st True r1 h1 Inr ok r2 pay nxt
            by (subst get_data_loop.simps) (simp add: loop_body_def)
          have "\<exists>b cs'. get_data_loop itemsize data_points channels ?s'
                  = Some (fst (run_packets itemsize data_points channels ps
                                 (data ?s', received_data_points ?s')), b, map Recv cs')
                \<and> b @ concat cs' = concat (map packet_bytes
                      (snd (run_packets itemsize data_points channels ps
                                 (data ?s', received_data_points ?s'))))"
          proof (rule Cons.IH [OF wfs])
            show "data_socket ?s' = map Recv c2" by simp
            show "data_stream ?s' @ concat c2 = ?rest" using u2(2) by simp
          qed
          with step fr st True hdr Inr ok show ?thesis by simp
        qed
      qed
    qed
  qed
qed

lemma get_data_run_packets:
  assumes "list_all well_formed pkts" and "concat cs = concat (map packet_bytes pkts)"
    and "0 \<le> data_points"
  shows "\<exists>b cs'. get_data itemsize data_points channels (map Recv cs)
           = Some (fst (run_packets itemsize (nat data_points) channels pkts
                          (replicate (nat data_points) (replicate (length channels) 0), 0)),
                   b, map Recv cs')
         \<and> b @ concat cs' = concat (map packet_bytes
               (snd (run_packets itemsize (nat data_points) channels pkts
                          (replicate (nat data_points) (replicate (length channels) 0), 0))))"
proof -
  let ?s = "\<lparr>data_stream = [], data = replicate (nat data_points) (replicate (length channels) 0),
             received_data_points = 0, data_socket = map Recv cs\<rparr>"
  have "\<exists>b cs'. get_data_loop itemsize (nat data_points) channels ?s
            = Some (fst (run_packets itemsize (nat data_points) channels pkts
                           (data ?s, received_data_points ?s)), b, map Recv cs')
          \<and> b @ concat cs' = concat (map packet_bytes
                (snd (run_packets itemsize (nat data_points) channels pkts
                           (data ?s, received_data_points ?s))))"
    using loop_run_packets [where s = ?s and cs = cs, OF assms(1)] assms(2) by simp
  with assms(3) show ?thesis by (simp add: get_data_def)
qed

lemma scenario_header_fields: "inspect_header scenario_header = Inr (2, 3, 8, 24)"
  by code_simp


lemma scenario_stream_fields:
  "inspect_header (scenario_header @ scenario_payload) = Inr (2, 3, 8, 24)"
  by code_simp

subsection \<open>The rows collected from readable packets\<close>

lemma frames_loop_rows:
  assumes "length dat = dp" "rcv \<le> dp"
    and "list_all (\<lambda>i. \<not> isl (frame_row isz chs pl bpf i)) idx"
  shows "frames_loop isz dp chs pl bpf idx (dat, rcv)
     = Inr (take rcv dat @ take (dp - rcv) (map (\<lambda>i. projr (frame_row isz chs pl bpf i)) idx)
              @ drop (rcv + min (dp - rcv) (length idx)) dat,
            rcv + min (dp - rcv) (length idx))"
  using assms
proof (induction idx arbitrary: dat rcv)
  case Nil
  then show ?case by simp
next
  case (Cons i idx)
  show ?case
  proof (cases "rcv < dp")
    case False
    with Cons.prems show ?thesis by simp
  next
    case True
    from Cons.prems(3) obtain row where row: "frame_row isz chs pl bpf i = Inr row"
      by (cases "frame_row isz chs pl bpf i") auto
    let ?dat = "dat[rcv := row]"
    have len: "length ?dat = dp" using Cons.prems(1) by simp
    have rest: "list_all (\<lambda>i. \<not> isl (frame_row isz chs pl bpf i)) idx"
      using Cons.prems(3) by simp
    have le: "Suc rcv \<le> dp" using True by simp
    have tk: "take (Suc rcv) ?dat = take rcv dat @ [row]"
      using True Cons.prems(1) by (simp add: take_Suc_conv_app_nth)
    have mn: "min (dp - rcv) (Suc (length idx)) = Suc (min (dp - Suc rcv) (length idx))"
      using True by arith
    have dr: "drop (Suc rcv + min (dp - Suc rcv) (length idx)) ?dat
                = drop (Suc rcv + min (dp - Suc rcv) (length idx)) dat"
      by (simp add: drop_update_cancel)
    have tk2: "take (dp - rcv) (row # map (\<lambda>i. projr (frame_row isz chs pl bpf i)) idx)
                 = row # take (dp - Suc rcv) (map (\<lambda>i. projr (frame_row isz chs pl bpf i)) idx)"
    proof -
      have "dp - rcv = Suc (dp - Suc rcv)" using True by arith
      then show ?thesis by simp
    qed
    show ?thesis
      using True row Cons.IH [OF len le rest] tk mn dr tk2 by simp
  qed
qed

lemma take_filled:
  "length a = r \<Longrightarrow> take (r + min k (length b)) (a @ take k b @ c) = a @ take k b"
  by (simp add: min_def)

lemma rows_of_length:
  "inspect_header (fst p) = Inr (nc, nf, bpf, ps) \<Longrightarrow> length (rows_of isz chs p) = nat nf"
  by (simp add: rows_of_def packet_rows_def)

lemma run_packets_rows:
  assumes "list_all (readable isz chs) pkts" "length dat = dp" "rcv \<le> dp"
    and "dp - rcv \<le> length (concat (map (rows_of isz chs) pkts))"
  shows "run_packets isz dp chs pkts (dat, rcv)
     = (Inr (oriented chs (take rcv dat @ take (dp - rcv) (concat (map (rows_of isz chs) pkts)))),
        drop (packets_used (dp - rcv) (map (\<lambda>p. length (rows_of isz chs p)) pkts)) pkts)"
  using assms
proof (induction pkts arbitrary: dat rcv)
  case Nil
  then show ?case by simp
next
  case (Cons p ps)
  show ?case
  proof (cases "rcv < dp")
    case False
    with Cons.prems show ?thesis by simp
  next
    case True
    from Cons.prems(1) have rd: "readable isz chs p" and rds: "list_all (readable isz chs) ps"
      by simp_all
    from rd obtain nc nf bpf ps' m where
      hdr: "inspect_header (fst p) = Inr (nc, nf, bpf, ps')"
      and mx: "py_max chs = Inr m" and ok: "m < nc"
      and fr: "list_all (\<lambda>row. \<not> isl row) (packet_rows isz chs p)"
      by (auto simp: readable_def split: sum.splits)
    let ?rows = "rows_of isz chs p"
    let ?n = "min (dp - rcv) (nat nf)"
    have rows: "?rows = map (\<lambda>i. projr (frame_row isz chs (snd p) bpf i)) [0..<nat nf]"
      using hdr by (simp add: rows_of_def packet_rows_def)
    have nrows: "length ?rows = nat nf" using hdr by (rule rows_of_length)
    have frs: "list_all (\<lambda>i. \<not> isl (frame_row isz chs (snd p) bpf i)) [0..<nat nf]"
      using fr hdr by (simp add: packet_rows_def list_all_iff)
    let ?dat = "take rcv dat @ take (dp - rcv) ?rows @ drop (rcv + ?n) dat"
    have fl: "frames_loop isz dp chs (snd p) bpf [0..<nat nf] (dat, rcv) = Inr (?dat, rcv + ?n)"
      using frames_loop_rows [OF Cons.prems(2,3) frs] rows by simp
    have len: "length ?dat = dp" using Cons.prems(2,3) nrows by (simp add: min_def)
    have le: "rcv + ?n \<le> dp" using Cons.prems(3) by simp
    have tot: "dp - (rcv + ?n) \<le> length (concat (map (rows_of isz chs) ps))"
      using Cons.prems(4) nrows by simp
    have "length (take rcv dat) = rcv" using Cons.prems(2,3) by simp
    from take_filled [OF this, of "dp - rcv" ?rows "drop (rcv + ?n) dat"]
    have tk: "take (rcv + ?n) ?dat = take rcv dat @ take (dp - rcv) ?rows"
      using nrows by simp
    have tk2: "take (dp - rcv) (?rows @ concat (map (rows_of isz chs) ps))
                 = take (dp - rcv) ?rows @ take (dp - (rcv + ?n)) (concat (map (rows_of isz chs) ps))"
      using nrows by (simp add: min_def)
    have used: "packets_used (dp - rcv) (length ?rows # map (\<lambda>p. length (rows_of isz chs p)) ps)
                  = Suc (packets_used (dp - (rcv + ?n)) (map (\<lambda>p. length (rows_of isz chs p)) ps))"
      using True nrows by (auto simp: min_def)
    have "run_packets isz dp chs (p # ps) (dat, rcv) = run_packets isz dp chs ps (?dat, rcv + ?n)"
      using True hdr mx ok fl by simp
    also have "\<dots> = (Inr (oriented chs (take (rcv + ?n) ?dat
                      @ take (dp - (rcv + ?n)) (concat (map (rows_of isz chs) ps)))),
                  drop (packets_used (dp - (rcv + ?n)) (map (\<lambda>p. length (rows_of isz chs p)) ps)) ps)"
      by (rule Cons.IH [OF rds len le tot])
    finally have eq: "run_packets isz dp chs (p # ps) (dat, rcv)
        = (Inr (oriented chs (take (rcv + ?n) ?dat
                      @ take (dp - (rcv + ?n)) (concat (map (rows_of isz chs) ps)))),
           drop (packets_used (dp - (rcv + ?n)) (map (\<lambda>p. length (rows_of isz chs p)) ps)) ps)" .
    have r1: "concat (map (rows_of isz chs) (p # ps)) = ?rows @ concat (map (rows_of isz chs) ps)"
      by simp
    have r2: "map (\<lambda>p. length (rows_of isz chs p)) (p # ps)
                = length ?rows # map (\<lambda>p. length (rows_of isz chs p)) ps"
      by simp
    show ?thesis unfolding eq tk r1 r2 tk2 used by simp
  qed
qed

lemma aligned_loop:
  assumes "list_all (readable isz chs) pkts" "length dat = dp" "rcv \<le> dp"
    and "dp - rcv \<le> length (concat (map (rows_of isz chs) pkts))"
  shows "get_data_loop isz dp chs
           \<lparr>data_stream = [], data = dat, received_data_points = rcv,
            data_socket = map Recv (map packet_bytes pkts)\<rparr>
       = Some (fst (run_packets isz dp chs pkts (dat, rcv)), [],
               map Recv (map packet_bytes (snd (run_packets isz dp chs pkts (dat, rcv)))))"
  using assms
proof (induction pkts arbitrary: dat rcv)
  case Nil
  then show ?case by (subst get_data_loop.simps) simp
next
  case (Cons p ps)
  show ?case
  proof (cases "rcv < dp")
    case False
    then show ?thesis by (subst get_data_loop.simps) simp
  next
    case True
    from Cons.prems(1) have rd: "readable isz chs p" and rds: "list_all (readable isz chs) ps"
      by simp_all
    from rd obtain nc nf bpf ps' m where
      hdr: "inspect_header (fst p) = Inr (nc, nf, bpf, ps')"
      and mx: "py_max chs = Inr m" and ok: "m < nc"
      and fr: "list_all (\<lambda>row. \<not> isl row) (packet_rows isz chs p)"
      and hlen: "length (fst p) = 32" and plen: "int (length (snd p)) = ps'"
      by (auto simp: readable_def well_formed_def split: sum.splits)
    let ?rows = "rows_of isz chs p"
    let ?n = "min (dp - rcv) (nat nf)"
    have rows: "?rows = map (\<lambda>i. projr (frame_row isz chs (snd p) bpf i)) [0..<nat nf]"
      using hdr by (simp add: rows_of_def packet_rows_def)
    have nrows: "length ?rows = nat nf" using hdr by (rule rows_of_length)
    have frs: "list_all (\<lambda>i. \<not> isl (frame_row isz chs (snd p) bpf i)) [0..<nat nf]"
      using fr hdr by (simp add: packet_rows_def list_all_iff)
    let ?dat = "take rcv dat @ take (dp - rcv) ?rows @ drop (rcv + ?n) dat"
    have fl: "frames_loop isz dp chs (snd p) bpf [0..<nat nf] (dat, rcv) = Inr (?dat, rcv + ?n)"
      using frames_loop_rows [OF Cons.prems(2,3) frs] rows by simp
    have len: "length ?dat = dp" using Cons.prems(2,3) nrows by (simp add: min_def)
    have le: "rcv + ?n \<le> dp" using Cons.prems(3) by simp
    have tot: "dp - (rcv + ?n) \<le> length (concat (map (rows_of isz chs) ps))"
      using Cons.prems(4) nrows by simp
    let ?pb = "packet_bytes p"
    let ?rest = "map Recv (map packet_bytes ps)"
    have pb: "?pb = fst p @ snd p @ []" by (simp add: packet_bytes_def)
    have l32: "32 \<le> int (length ?pb)" using hlen by (simp add: packet_bytes_def)
    have lps: "32 + ps' \<le> int (length ?pb)" using hlen plen by (simp add: packet_bytes_def)
    have r1: "recv_until 32 [] (Recv ?pb # ?rest) = (True, ?pb, ?rest)"
      using recv_until_enough [OF l32, of ?rest] by simp
    have r2: "recv_until (32 + ps') ?pb ?rest = (True, ?pb, ?rest)"
      by (rule recv_until_enough [OF lps])
    have h1: "inspect_header ?pb = Inr (nc, nf, bpf, ps')"
      using hdr inspect_header_prefix [of "fst p" ?pb] hlen by (simp add: packet_bytes_def)
    have pay: "py_slice 32 (32 + ps') ?pb = snd p"
      unfolding pb using py_slice_payload [OF hlen, of "snd p" "[]"] plen by simp
    have nxt: "py_slice_from (32 + ps') ?pb = []"
      unfolding pb using py_slice_from_packet [OF hlen, of "snd p" "[]"] plen by simp
    have step: "get_data_loop isz dp chs
           \<lparr>data_stream = [], data = dat, received_data_points = rcv,
            data_socket = map Recv (map packet_bytes (p # ps))\<rparr>
        = get_data_loop isz dp chs
           \<lparr>data_stream = [], data = ?dat, received_data_points = rcv + ?n,
            data_socket = map Recv (map packet_bytes ps)\<rparr>"
      using True r1 r2 h1 mx ok pay nxt fl
      by (subst get_data_loop.simps) (simp add: loop_body_def)
    have run: "run_packets isz dp chs (p # ps) (dat, rcv)
                 = run_packets isz dp chs ps (?dat, rcv + ?n)"
      using True hdr mx ok fl by simp
    show ?thesis unfolding step run by (rule Cons.IH [OF rds len le tot])
  qed
qed

lemma readable_well_formed: "readable isz chs p \<Longrightarrow> well_formed p"
  by (simp add: readable_def)

lemma scenario_readable: "readable 4 [0, 1] (scenario_header, scenario_payload)"
  by code_simp

lemma scenario_rows:
  "rows_of 4 [0, 1] (scenario_header, scenario_payload) = [[10, 20], [11, 21], [12, 22]]"
  by code_simp

lemma scenario_four:
  "oriented [0, 1] [[10, 20], [11, 21], [12, 22], [10, 20]]
     = Arr2 [[10, 11, 12, 10], [20, 21, 22, 20]]"
  by code_simp

subsection \<open>The string operations of \<open>command\<close>\<close>

lemma py_strip_core:
  assumes "set lead \<subseteq> set chars" "set trail \<subseteq> set chars"
    and "resp = [] \<or> (hd resp \<notin> set chars \<and> last resp \<notin> set chars)"
  shows "py_strip chars (lead @ resp @ trail) = resp"
proof -
  let ?P = "\<lambda>c. c \<in> set chars"
  have l: "dropWhile ?P (lead @ resp @ trail) = dropWhile ?P (resp @ trail)"
    using assms(1) by (intro dropWhile_append2) auto
  show ?thesis
  proof (cases resp)
    case Nil
    have e: "dropWhile ?P (lead @ [] @ trail) = []"
      using assms(1,2) by (auto simp: dropWhile_eq_Nil_conv)
    show ?thesis unfolding py_strip_def Nil e by simp
  next
    case (Cons x xs)
    with assms(3) have h: "x \<notin> set chars" and t: "last resp \<notin> set chars" by auto
    from Cons h have "dropWhile ?P (resp @ trail) = resp @ trail" by simp
    moreover have "dropWhile ?P (rev trail @ rev resp) = dropWhile ?P (rev resp)"
      using assms(2) by (intro dropWhile_append2) auto
    moreover have "dropWhile ?P (rev resp) = rev resp"
      using t by (simp add: dropWhile_eq_self_iff hd_rev)
    ultimately show ?thesis using l by (simp add: py_strip_def)
  qed
qed

lemma py_startswith_prefix: "py_startswith p s = prefix p s"
  unfolding py_startswith_def
  by (metis append_eq_conv_conj prefix_def take_is_prefix)

lemma py_endswith_suffix: "py_endswith p s = suffix p s"
  unfolding py_endswith_def
  by (auto simp: suffix_def) (metis append_take_drop_id)

lemma py_slice_from_append: "py_slice_from (int (length p)) (p @ s) = s"
  by (simp add: py_slice_from_def py_index_def)

lemma py_slice_upto_OK: "py_slice_upto (- 2) (mid @ ''OK'') = mid"
  by (simp add: py_slice_upto_def py_index_def)

lemma command_stripped:
  assumes com: "com = py_remove LF (py_remove CR com0)"
    and enc: "encode_ascii com = Some cb"
    and io: "control_socket ([0x24] @ cb @ [0x0D, 0x0A]) = Some raw"
    and dec: "decode_ascii raw = Some (lead @ resp @ trail)"
    and lead: "set lead \<subseteq> {CR, LF}" and trail: "set trail \<subseteq> {CR, LF}"
    and core: "resp = [] \<or> (hd resp \<notin> {CR, LF} \<and> last resp \<notin> {CR, LF})"
  shows "command control_socket com0 =
     (if prefix (''$'' @ com) resp then
        (if suffix ''OK'' (drop (Suc (length com)) resp)
         then Inr (py_slice_upto (- 2) (drop (Suc (length com)) resp))
         else if drop (Suc (length com)) resp = ''$UNKNOWN COMMAND''
         then Inl (DeviceError (UnknownCommand com))
         else if drop (Suc (length com)) resp = ''$WRONG PARAMETER''
         then Inl (DeviceError (WrongParameter com))
         else Inl (DeviceError (UnexpectedResponse (drop (Suc (length com)) resp))))
      else Inl (DeviceError (UnexpectedResponse resp)))"
proof -
  have st: "py_strip [CR, LF] (lead @ resp @ trail) = resp"
    using lead trail core by (intro py_strip_core) auto
  have sl: "py_slice_from (int (length com) + 1) resp = drop (Suc (length com)) resp"
    by (simp add: py_slice_from_def py_index_def min_def nat_add_distrib drop_all)
  show ?thesis
    using enc io dec com [symmetric]
    by (simp add: command_def st sl py_startswith_prefix py_endswith_suffix Let_def)
qed

lemma clean_VER: "''VER'' = py_remove LF (py_remove CR ''VER'')"
  by (simp add: py_remove_def)

lemma clean_STS: "''STS'' = py_remove LF (py_remove CR ''STS'')"
  by (simp add: py_remove_def)

lemma encode_VER: "encode_ascii ''VER'' = Some [0x56, 0x45, 0x52]"
  by code_simp

lemma encode_STS: "encode_ascii ''STS'' = Some [0x53, 0x54, 0x53]"
  by code_simp

lemma decode_ok: "decode_ascii reply_ok = Some ([CR, LF] @ ''$VER1.2OK'' @ [CR, LF])"
  by code_simp

lemma decode_unknown: "decode_ascii reply_unknown = Some ([] @ ''$VER$UNKNOWN COMMAND'' @ [CR, LF])"
  by code_simp

lemma decode_partial: "decode_ascii reply_partial = Some ([] @ ''$STSA1;'' @ [CR, LF])"
  by code_simp

lemma crlf_sub: "set [CR, LF] \<subseteq> {CR, LF}" "set ([] :: string) \<subseteq> {CR, LF}"
  by simp_all

lemma core_ok: "''$VER1.2OK'' = [] \<or> (hd ''$VER1.2OK'' \<notin> {CR, LF} \<and> last ''$VER1.2OK'' \<notin> {CR, LF})"
  by simp

lemma core_unknown:
  "''$VER$UNKNOWN COMMAND'' = [] \<or>
   (hd ''$VER$UNKNOWN COMMAND'' \<notin> {CR, LF} \<and> last ''$VER$UNKNOWN COMMAND'' \<notin> {CR, LF})"
  by simp

lemma core_partial: "''$STSA1;'' = [] \<or> (hd ''$STSA1;'' \<notin> {CR, LF} \<and> last ''$STSA1;'' \<notin> {CR, LF})"
  by simp

subsection \<open>Little-endian fields and the count of channels\<close>

lemma uint_cat16: "uint (word_cat b a :: 16 word) = uint a + 256 * uint b" for a b :: "8 word"
proof -
  have a: "0 \<le> uint a" "uint a < 256" using uint_bounded [of a] by simp_all
  have b: "0 \<le> uint b" "uint b < 256" using uint_bounded [of b] by simp_all
  have "uint (word_cat b a :: 16 word) = concat_bit 8 (uint a) (uint b) mod 65536"
    by (simp only: word_cat_eq' uint_word_of_int) simp
  also have "\<dots> = (uint a mod 256 + 256 * uint b) mod 65536"
    by (simp add: concat_bit_eq take_bit_eq_mod push_bit_eq_mult mult.commute)
  also have "\<dots> = uint a + 256 * uint b" using a b by simp
  finally show ?thesis .
qed

lemma sint16: "sint (w :: 16 word) = (if 32768 \<le> uint w then uint w - 65536 else uint w)"
proof -
  have w: "0 \<le> uint w" "uint w < 65536" using uint_bounded [of w] by simp_all
  have s: "sint w = (uint w + 32768) mod 65536 - 32768"
    by (simp add: sint_uint signed_take_bit_eq_take_bit_shift take_bit_eq_mod)
  show ?thesis
  proof (cases "32768 \<le> uint w")
    case False
    then have "(uint w + 32768) mod 65536 = uint w + 32768"
      using w by (intro mod_pos_pos_trivial) simp_all
    with s False show ?thesis by simp
  next
    case True
    have e: "uint w + 32768 = (uint w - 32768) + 1 * 65536" by simp
    have "(uint w + 32768) mod 65536 = (uint w - 32768) mod 65536"
      unfolding e by (rule mod_mult_self1)
    also have "\<dots> = uint w - 32768" using True w by (intro mod_pos_pos_trivial) simp_all
    finally show ?thesis using s True by simp
  qed
qed

lemma le_sint_pair: "le_sint [a, b] = sint (word_cat b a :: 16 word)"
proof -
  have a: "0 \<le> uint a" "uint a < 256" using uint_bounded [of a] by simp_all
  have b: "0 \<le> uint b" "uint b < 256" using uint_bounded [of b] by simp_all
  show ?thesis using a b by (simp add: le_sint_def sint16 uint_cat16 Let_def)
qed

lemma py_count_append: "py_count c (xs @ ys) = py_count c xs + py_count c ys"
  by (simp add: py_count_def)

lemma py_count_replicate: "c \<noteq> d \<Longrightarrow> py_count c (replicate n d) = 0"
  by (simp add: py_count_def)

lemma py_count_bin_digits: "py_count (CHR ''1'') (bin_digits n) = ones n"
proof (induction n rule: bin_digits.induct)
  case (1 n)
  show ?case
  proof (cases "n < 2")
    case True
    then have "n = 0 \<or> n = 1" by arith
    then show ?thesis
      by (auto simp: bin_digits.simps [of 0] bin_digits.simps [of 1] bin_digits.simps [of "Suc 0"] ones.simps [of 0]
          ones.simps [of 1] ones.simps [of "Suc 0"] py_count_def)
  next
    case False
    then have "py_count (CHR ''1'') (bin_digits (n div 2)) = ones (n div 2)" by (rule 1)
    with False show ?thesis
      by (subst bin_digits.simps, subst ones.simps) (auto simp: py_count_append py_count_def)
  qed
qed

lemma py_count_format: "py_count (CHR ''1'') (format_064b v) = ones (nat \<bar>v\<bar>)"
  by (simp add: format_064b_def Let_def py_count_append py_count_replicate py_count_bin_digits)
     (simp add: py_count_def)

lemma ones_groups:
  "u < 4 ^ n \<Longrightarrow> \<forall>k<n. (u div 4 ^ k) mod 4 \<le> 1 \<Longrightarrow>
   ones u = length (filter (\<lambda>k. (u div 4 ^ k) mod 4 = 1) [0..<n])"
proof (induction n arbitrary: u)
  case 0
  then show ?case by (simp add: ones.simps [of 0])
next
  case (Suc n)
  let ?q = "u div 4" and ?r = "u mod 4"
  from Suc.prems(2) have r: "?r \<le> 1" by (auto dest: spec [of _ 0])
  from Suc.prems(1) have q: "?q < 4 ^ n" by (simp add: less_mult_imp_div_less mult.commute)
  have sh: "(?q div 4 ^ k) mod 4 = (u div 4 ^ Suc k) mod 4" for k
    by (simp add: div_mult2_eq)
  have "\<forall>k<n. (?q div 4 ^ k) mod 4 \<le> 1"
    using Suc.prems(2) sh by auto
  from Suc.IH [OF q this]
  have ih: "ones ?q = length (filter (\<lambda>k. (u div 4 ^ Suc k) mod 4 = 1) [0..<n])"
    by (simp only: sh)
  have m2: "u mod 2 = ?r" using r by presburger
  have d2: "u div 2 = 2 * ?q" using r by presburger
  have o2: "ones (2 * ?q) = ones ?q"
    by (subst ones.simps) (simp add: ones.simps [of 0])
  have ou: "ones u = ?r + ones ?q"
  proof (cases "u = 0")
    case True
    then show ?thesis by (simp add: ones.simps [of 0])
  next
    case False
    then show ?thesis by (subst ones.simps) (simp add: m2 d2 o2)
  qed
  have up: "[0..<Suc n] = 0 # map Suc [0..<n]"
    by (simp only: map_Suc_upt upt_conv_Cons [OF zero_less_Suc])
  have "length (filter (\<lambda>k. (u div 4 ^ k) mod 4 = 1) [0..<Suc n])
          = (if ?r = 1 then 1 else 0) + length (filter (\<lambda>k. (u div 4 ^ Suc k) mod 4 = 1) [0..<n])"
    unfolding up by (simp add: filter_map comp_def)
  with ou ih r show ?case by auto
qed

lemma le_uint_bounds: "0 \<le> le_uint bs \<and> le_uint bs < 256 ^ length bs"
proof (induction bs)
  case Nil
  show ?case by simp
next
  case (Cons b bs)
  have b: "0 \<le> uint b" "uint b < 256" using uint_bounded [of b] by simp_all
  from Cons have "le_uint bs + 1 \<le> 256 ^ length bs" by simp
  then have "256 * (le_uint bs + 1) \<le> 256 * 256 ^ length bs" by (rule mult_left_mono) simp
  with b Cons show ?case by simp
qed

lemma take2_drop: "k + 2 \<le> length b \<Longrightarrow> take 2 (drop k b) = [b ! k, b ! (k + 1)]"
proof -
  assume a: "k + 2 \<le> length b"
  then have "drop k b = b ! k # drop (Suc k) b" by (simp add: Cons_nth_drop_Suc)
  moreover from a have "drop (Suc k) b = b ! Suc k # drop (Suc (Suc k)) b"
    by (simp add: Cons_nth_drop_Suc)
  ultimately show ?thesis by (simp add: numeral_2_eq_2)
qed

lemma header_slices:
  assumes "32 \<le> length b"
  shows "py_slice 12 20 (take 32 b) = take 8 (drop 12 b)"
    and "py_slice 24 26 (take 32 b) = [b ! 24, b ! 25]"
    and "py_slice 26 28 (take 32 b) = [b ! 26, b ! 27]"
proof -
  show "py_slice 12 20 (take 32 b) = take 8 (drop 12 b)"
    using assms by (simp add: py_slice_def py_index_def min_def drop_take)
  have "py_slice 24 26 (take 32 b) = take 2 (drop 24 b)"
    using assms by (simp add: py_slice_def py_index_def min_def drop_take)
  then show "py_slice 24 26 (take 32 b) = [b ! 24, b ! 25]"
    using assms take2_drop [of 24 b] by simp
  have "py_slice 26 28 (take 32 b) = take 2 (drop 26 b)"
    using assms by (simp add: py_slice_def py_index_def min_def drop_take)
  then show "py_slice 26 28 (take 32 b) = [b ! 26, b ! 27]"
    using assms take2_drop [of 26 b] by simp
qed

lemma presence_signed_le_sint:
  assumes "32 \<le> length b"
  shows "le_sint (take 8 (drop 12 b)) = presence_signed b"
proof -
  have "length (take 8 (drop 12 b)) = 8" using assms by simp
  then show ?thesis by (simp add: le_sint_def presence_signed_def presence_field_def Let_def)
qed

lemma inspect_header_unpacked:
  assumes "32 \<le> length b"
  shows "inspect_header b =
     Inr (int (ones (nat \<bar>presence_signed b\<bar>)), sint16_at 26 b, sint16_at 24 b,
          sint16_at 24 b * sint16_at 26 b)"
proof -
  have len: "length (take 32 b) = 32" using assms by simp
  have "inspect_header b
      = Inr (int (py_count (CHR ''1'') (format_064b (le_sint (take 8 (drop 12 b))))),
             le_sint [b ! 26, b ! 27], le_sint [b ! 24, b ! 25],
             le_sint [b ! 24, b ! 25] * le_sint [b ! 26, b ! 27])"
    using len by (simp add: inspect_header_def unpack_header_def header_slices [OF assms]
        Let_def)
  then show ?thesis
    by (simp add: py_count_format presence_signed_le_sint [OF assms] le_sint_pair
        sint16_at_def)
qed

lemma valid_field_count:
  assumes "list_all (\<lambda>k. presence_group b k \<le> 1) [0..<32]"
  shows "ones (nat \<bar>presence_signed b\<bar>) = groups_01 b"
proof -
  let ?f = "presence_field b"
  let ?u = "nat ?f"
  have f0: "0 \<le> ?f" using le_uint_bounds by (simp add: presence_field_def)
  then have fu: "?f = int ?u" by simp
  have grp: "presence_group b k = int ((?u div 4 ^ k) mod 4)" for k
    by (subst presence_group_def, subst fu) (simp add: zdiv_int zmod_int)
  have "?f < 256 ^ length (take 8 (drop 12 b))"
    unfolding presence_field_def using le_uint_bounds [of "take 8 (drop 12 b)"] by blast
  also have "\<dots> \<le> 256 ^ 8" by (intro power_increasing) simp_all
  finally have f8: "?f < 256 ^ 8" .
  have ub: "?u < 4 ^ 32" using f0 f8 by (simp add: nat_less_iff)
  from assms have g: "\<forall>k<32. (?u div 4 ^ k) mod 4 \<le> 1"
    by (simp add: list_all_iff grp)
  then have "31 < (32::nat) \<longrightarrow> (?u div 4 ^ 31) mod 4 \<le> 1" by (rule spec)
  then have g31: "(?u div 4 ^ 31) mod 4 \<le> 1" by simp
  have "?u < 4 * 4 ^ 31" using ub by simp
  then have "?u div 4 ^ 31 < 4" by (simp only: div_less_iff_less_mult zero_less_power zero_less_numeral)
  with g31 have "?u div 4 ^ 31 < 2" by simp
  then have "?u < 2 * 4 ^ 31"
    by (simp only: div_less_iff_less_mult zero_less_power zero_less_numeral)
  then have "?f < 2 ^ 63" using f0 by (simp add: nat_less_iff)
  then have "nat \<bar>presence_signed b\<bar> = ?u" using f0 by (simp add: presence_signed_def)
  moreover have "groups_01 b = length (filter (\<lambda>k. (?u div 4 ^ k) mod 4 = 1) [0..<32])"
    unfolding groups_01_def grp by simp
  ultimately show ?thesis using ones_groups [OF ub g] by simp
qed

lemma scenario_length: "32 \<le> length scenario_header"
  by (simp add: scenario_header_def)

lemma scenario_groups_valid: "list_all (\<lambda>k. presence_group scenario_header k \<le> 1) [0..<32]"
  by code_simp

lemma scenario_groups: "groups_01 scenario_header = 2"
  by code_simp

lemma scenario_sint16: "sint16_at 26 scenario_header = 3" "sint16_at 24 scenario_header = 8"
  by code_simp+

section \<open>Properties\<close>

subsection \<open>A request for no samples\<close>

text \<open>
  C9. For every channel list, \<open>get_data\<close> with a requested sample count of 0 returns an
  empty batch at once and never calls the reader: the outcomes of the socket are all
  still there, and the buffer is empty.
\<close>

theorem get_data_zero_points:
  "get_data itemsize 0 channels sock =
     Some (Inr (if length channels = 1 then Arr1 [] else Arr2 (replicate (length channels) [])),
           [], sock)"
  by (simp add: get_data_def get_data_loop.simps oriented_def transpose_data_def
      map_replicate_const)

subsection \<open>A silent device\<close>

text \<open>
  C10. For every command that can be sent (its text encodes as ASCII), if the read after
  the pause yields zero bytes then \<open>command\<close> raises the "Unexpected response"
  \<open>DeviceError\<close>: not the "Could not execute" error of a failed transport, and no
  success value.
\<close>

theorem command_silent_device:
  assumes "encode_ascii (py_remove LF (py_remove CR com)) = Some cb"
    and "control_socket ([0x24] @ cb @ [0x0D, 0x0A]) = Some []"
  shows "command control_socket com = Inl (DeviceError (UnexpectedResponse []))"
  using assms
  by (simp add: command_def decode_ascii_def py_strip_def py_startswith_def)

theorem command_silent_device_witness:
  "command (\<lambda>w. Some []) ''VER'' = Inl (DeviceError (UnexpectedResponse []))"
  using command_silent_device [of "''VER''" "[0x56, 0x45, 0x52]" "\<lambda>w. Some []"]
  by (simp add: encode_ascii_def py_remove_def)

subsection \<open>The orientation of the result\<close>

text \<open>
  C8. The return of \<open>get_data\<close> on a timeout is the array \<open>data\<close> itself: with one channel
  requested and one sample asked for, a reader that times out on the first call makes
  \<open>get_data\<close> return the two-dimensional array \<open>[[0]]\<close> of one row of length 1, not a
  flat sequence.
\<close>

theorem get_data_timeout_one_channel:
  "get_data 4 1 [0] [RecvTimeout] = Some (Inr (Arr2 [[0]]), [], [])"
  by code_simp

subsection \<open>The scenario of one packet with three frames\<close>

text \<open>
  C1, as stated, fails: with two samples requested on channels 0 and 1 the result is not
  the sequence of pairs \<open>[(10, 20), (11, 21)]\<close>, wherever the two 16-bit fields of the header
  are placed.
\<close>

theorem scenario_not_sample_major:
  "get_data 4 2 [0, 1] [Recv (scenario_header @ scenario_payload)]
     \<noteq> Some (Inr (Arr2 [[10, 20], [11, 21]]), [], [])
   \<and> get_data 4 2 [0, 1] [Recv (swapped_header @ scenario_payload)]
     \<noteq> Some (Inr (Arr2 [[10, 20], [11, 21]]), [], [])"
  by code_simp

text \<open>
  C1, amended. With 4-byte samples and the header that \<open>inspect_header\<close> reads as 2 channels,
  3 frames and 8 bytes per frame, \<open>get_data\<close> for 2 samples on channels \<open>[0, 1]\<close> returns the
  array with one row per channel, \<open>[[10, 11], [20, 21]]\<close>, and the whole packet of 32 + 24
  bytes is gone from the buffer, the third frame included: the buffer is empty, or holds
  only the bytes that came after the packet.
\<close>

theorem scenario_channel_major:
  "get_data 4 2 [0, 1] [Recv (scenario_header @ scenario_payload)]
     = Some (Inr (Arr2 [[10, 11], [20, 21]]), [], [])
   \<and> get_data 4 2 [0, 1] [Recv (scenario_header @ scenario_payload @ [1, 2, 3])]
     = Some (Inr (Arr2 [[10, 11], [20, 21]]), [1, 2, 3], [])
   \<and> inspect_header scenario_header = Inr (2, 3, 8, 24)"
  by code_simp

subsection \<open>The channel check\<close>

text \<open>
  C4. For every packet (every pass of the loop that starts at a packet boundary with at
  least 32 bytes still to come): if \<open>max(channels) \<ge> nr_of_channels\<close> for the header decoded
  from the first 32 bytes, \<open>get_data\<close> raises the \<open>DeviceError\<close> "Device has only ...
  channels". Nothing has been consumed at that point: the buffer together with the chunks
  not yet read is the whole stream, and the buffer still begins with the 32-byte header.
\<close>

theorem channel_check_before_payload:
  assumes run: "received_data_points s < data_points"
    and sock: "data_socket s = map Recv cs @ r"
    and len: "32 \<le> length (data_stream s @ concat cs)"
    and hdr: "inspect_header (data_stream s @ concat cs) = Inr (nc, nf, bpf, ps)"
    and mx: "py_max channels = Inr m" and bad: "nc \<le> m"
  shows "\<exists>buf cs'.
           get_data_loop itemsize data_points channels s
             = Some (Inl (DeviceError (OnlyChannels nc)), buf, map Recv cs' @ r)
         \<and> buf @ concat cs' = data_stream s @ concat cs
         \<and> take 32 buf = take 32 (data_stream s @ concat cs) \<and> 32 \<le> length buf"
proof -
  let ?all = "data_stream s @ concat cs"
  from len have "32 \<le> int (length ?all)" by simp
  from recv_until_filled [OF this, of r] obtain buf cs' where
    h: "recv_until 32 (data_stream s) (data_socket s) = (True, buf, map Recv cs' @ r)"
       "buf @ concat cs' = ?all" "32 \<le> int (length buf)"
    unfolding sock by blast
  from h(2) have "prefix buf ?all" by (metis prefixI)
  with h(3) have hdr': "inspect_header buf = Inr (nc, nf, bpf, ps)"
    using hdr inspect_header_prefix [of buf ?all] by simp
  from h(1) hdr' mx bad run
  have "get_data_loop itemsize data_points channels s
          = Some (Inl (DeviceError (OnlyChannels nc)), buf, map Recv cs' @ r)"
    by (subst get_data_loop.simps) (simp add: loop_body_def)
  moreover from h(2,3) have "take 32 buf = take 32 ?all"
    by (metis append_eq_conv_conj append_take_drop_id nat_int nat_le_iff take_append take_take min.absorb1 of_nat_le_iff of_nat_numeral)
  ultimately show ?thesis using h(2,3) by auto
qed

theorem channel_check_before_payload_witness:
  "\<exists>buf cs'.
     get_data_loop 4 1 [2]
       \<lparr>data_stream = [], data = [[0]], received_data_points = 0,
        data_socket = map Recv [scenario_header, scenario_payload] @ []\<rparr>
       = Some (Inl (DeviceError (OnlyChannels 2)), buf, map Recv cs' @ [])
     \<and> buf @ concat cs' = scenario_header @ scenario_payload
     \<and> take 32 buf = scenario_header \<and> 32 \<le> length buf"
  using channel_check_before_payload
    [where s = "\<lparr>data_stream = [], data = [[0]], received_data_points = 0,
                 data_socket = map Recv [scenario_header, scenario_payload] @ []\<rparr>"
       and data_points = 1 and cs = "[scenario_header, scenario_payload]" and r = "[]"
       and nc = 2 and nf = 3 and bpf = 8 and ps = 24 and channels = "[2]" and m = 2
       and itemsize = 4]
  by (simp add: scenario_stream_fields py_max_def) (simp add: scenario_header_def)

subsection \<open>Timeouts\<close>

text \<open>
  C5. A timeout of the reader ends the call normally exactly when it comes while fewer
  than 32 bytes of the next packet are buffered: \<open>get_data\<close> then returns the array \<open>data\<close>
  with the samples collected so far and raises nothing. A timeout that comes after the
  header was decoded (and passed the channel check), while the payload is still
  incomplete, is not caught: the call ends with the \<open>socket.timeout\<close> exception.
\<close>

theorem timeout_header_or_payload:
  assumes run: "received_data_points s < data_points"
    and sock: "data_socket s = map Recv cs @ RecvTimeout # r"
  shows "(length (data_stream s @ concat cs) < 32 \<longrightarrow>
            get_data_loop itemsize data_points channels s
              = Some (Inr (Arr2 (data s)), data_stream s @ concat cs, r))
       \<and> (32 \<le> length (data_stream s @ concat cs) \<longrightarrow>
            inspect_header (data_stream s @ concat cs) = Inr (nc, nf, bpf, ps) \<longrightarrow>
            py_max channels = Inr m \<longrightarrow> m < nc \<longrightarrow>
            int (length (data_stream s @ concat cs)) < 32 + ps \<longrightarrow>
            get_data_loop itemsize data_points channels s
              = Some (Inl SocketTimeout, data_stream s @ concat cs, r))"
proof (intro conjI impI)
  assume "length (data_stream s @ concat cs) < 32"
  then have "recv_until 32 (data_stream s) (data_socket s) = (False, data_stream s @ concat cs, r)"
    unfolding sock by (intro recv_until_short) simp
  then show "get_data_loop itemsize data_points channels s
              = Some (Inr (Arr2 (data s)), data_stream s @ concat cs, r)"
    using run by (subst get_data_loop.simps) (simp add: loop_body_def)
next
  let ?all = "data_stream s @ concat cs"
  assume len: "32 \<le> length ?all"
    and hdr: "inspect_header ?all = Inr (nc, nf, bpf, ps)"
    and mx: "py_max channels = Inr m" and ok: "m < nc"
    and short: "int (length ?all) < 32 + ps"
  from len have "32 \<le> int (length ?all)" by simp
  from recv_until_filled [OF this, of "RecvTimeout # r"] obtain buf cs' where
    h: "recv_until 32 (data_stream s) (data_socket s) = (True, buf, map Recv cs' @ RecvTimeout # r)"
       "buf @ concat cs' = ?all" "32 \<le> int (length buf)"
    unfolding sock by blast
  from h(2) have "prefix buf ?all" by (metis prefixI)
  with h(3) have hdr': "inspect_header buf = Inr (nc, nf, bpf, ps)"
    using hdr inspect_header_prefix [of buf ?all] by simp
  from short h(2) have "int (length (buf @ concat cs')) < 32 + ps" by simp
  then have "recv_until (32 + ps) buf (map Recv cs' @ RecvTimeout # r) = (False, buf @ concat cs', r)"
    by (rule recv_until_short)
  with h(1,2) hdr' mx ok run
  show "get_data_loop itemsize data_points channels s = Some (Inl SocketTimeout, ?all, r)"
    by (subst get_data_loop.simps) (simp add: loop_body_def)
qed

theorem timeout_header_or_payload_witness:
  "get_data_loop 4 1 [0, 1]
     \<lparr>data_stream = [], data = [[0, 0]], received_data_points = 0,
      data_socket = map Recv [[0x4D, 0x45]] @ RecvTimeout # []\<rparr>
     = Some (Inr (Arr2 [[0, 0]]), [0x4D, 0x45], [])
   \<and> get_data_loop 4 1 [0, 1]
     \<lparr>data_stream = [], data = [[0, 0]], received_data_points = 0,
      data_socket = map Recv [scenario_header] @ RecvTimeout # []\<rparr>
     = Some (Inl SocketTimeout, scenario_header, [])"
proof
  show "get_data_loop 4 1 [0, 1]
     \<lparr>data_stream = [], data = [[0, 0]], received_data_points = 0,
      data_socket = map Recv [[0x4D, 0x45]] @ RecvTimeout # []\<rparr>
     = Some (Inr (Arr2 [[0, 0]]), [0x4D, 0x45], [])"
    using timeout_header_or_payload
      [where s = "\<lparr>data_stream = [], data = [[0, 0]], received_data_points = 0,
                   data_socket = map Recv [[0x4D, 0x45]] @ RecvTimeout # []\<rparr>"
         and data_points = 1 and cs = "[[0x4D, 0x45]]" and r = "[]"
         and channels = "[0, 1]" and itemsize = 4]
    by simp
  show "get_data_loop 4 1 [0, 1]
     \<lparr>data_stream = [], data = [[0, 0]], received_data_points = 0,
      data_socket = map Recv [scenario_header] @ RecvTimeout # []\<rparr>
     = Some (Inl SocketTimeout, scenario_header, [])"
    using timeout_header_or_payload
      [where s = "\<lparr>data_stream = [], data = [[0, 0]], received_data_points = 0,
                   data_socket = map Recv [scenario_header] @ RecvTimeout # []\<rparr>"
         and data_points = 1 and cs = "[scenario_header]" and r = "[]"
         and nc = 2 and nf = 3 and bpf = 8 and ps = 24 and channels = "[0, 1]" and m = 1
         and itemsize = 4]
    by (simp add: scenario_header_fields py_max_def) (simp add: scenario_header_def)
qed

subsection \<open>Independence of the chunk boundaries\<close>



subsection \<open>Requests that end inside a packet or span several packets\<close>

text \<open>
  C7, as stated, fails in its consequence for the next call. The buffer is a local
  variable of \<open>get_data\<close>: when two packets arrive in one chunk and two samples are
  requested, the call returns while its buffer still holds the whole second packet, and
  that buffer is discarded. The next call finds nothing on the socket and returns zeros
  after a timeout, where the same bytes received packet by packet give it the samples of
  the second packet.
\<close>

theorem next_call_depends_on_chunks:
  "get_data 4 2 [0, 1] [Recv (scenario_header @ scenario_payload @ scenario_header @ scenario_payload)]
     = Some (Inr (Arr2 [[10, 11], [20, 21]]), scenario_header @ scenario_payload, [])
   \<and> get_data_twice 4 2 2 [0, 1]
       [Recv (scenario_header @ scenario_payload @ scenario_header @ scenario_payload)]
     = Some (Inr (Arr2 [[10, 11], [20, 21]]), Inr (Arr2 [[0, 0], [0, 0]]))
   \<and> get_data_twice 4 2 2 [0, 1]
       [Recv (scenario_header @ scenario_payload), Recv (scenario_header @ scenario_payload)]
     = Some (Inr (Arr2 [[10, 11], [20, 21]]), Inr (Arr2 [[10, 11], [20, 21]]))"
  by code_simp

text \<open>
  C7, amended. On a stream of readable packets with at least the requested number of
  frames, \<open>get_data\<close> goes from packet to packet until it has the requested number of
  samples: its result holds exactly the first \<open>data_points\<close> rows of the frames of the
  packets, in order. Every packet that it used is dropped from the buffer as a whole, also
  the last one when the count was reached partway through its frames (the frames left over
  are discarded): what remains in the buffer and in the chunks not yet read is exactly the
  packets after the last one used. The buffer ends with the call, so the next call reads
  only the chunks not yet read; these are the packets after the last one used, and the
  buffer is empty at the return, when every chunk was one whole packet.
\<close>

theorem spanning_packets:
  assumes "list_all (readable itemsize channels) pkts"
    and "concat cs = concat (map packet_bytes pkts)"
    and "data_points \<le> length (concat (map (rows_of itemsize channels) pkts))"
  shows "\<exists>b cs'.
           get_data itemsize (int data_points) channels (map Recv cs)
             = Some (Inr (oriented channels
                            (take data_points (concat (map (rows_of itemsize channels) pkts)))),
                     b, map Recv cs')
         \<and> b @ concat cs'
             = concat (map packet_bytes
                 (drop (packets_used data_points
                          (map (\<lambda>p. length (rows_of itemsize channels p)) pkts)) pkts))
         \<and> (cs = map packet_bytes pkts \<longrightarrow>
              b = [] \<and>
              cs' = map packet_bytes
                      (drop (packets_used data_points
                               (map (\<lambda>p. length (rows_of itemsize channels p)) pkts)) pkts))"
proof -
  let ?zeros = "replicate data_points (replicate (length channels) (0::int))"
  let ?later = "drop (packets_used data_points
                        (map (\<lambda>p. length (rows_of itemsize channels p)) pkts)) pkts"
  let ?res = "Inr (oriented channels
                     (take data_points (concat (map (rows_of itemsize channels) pkts))))"
  from assms(1) have wf: "list_all well_formed pkts"
    by (auto simp: list_all_iff intro: readable_well_formed)
  have "run_packets itemsize data_points channels pkts (?zeros, 0)
     = (Inr (oriented channels (take 0 ?zeros
               @ take (data_points - 0) (concat (map (rows_of itemsize channels) pkts)))),
        drop (packets_used (data_points - 0)
                (map (\<lambda>p. length (rows_of itemsize channels p)) pkts)) pkts)"
    by (rule run_packets_rows [OF assms(1)]) (simp_all add: assms(3))
  then have run: "run_packets itemsize data_points channels pkts (?zeros, 0) = (?res, ?later)"
    by simp
  show ?thesis
  proof (cases "cs = map packet_bytes pkts")
    case False
    from get_data_run_packets [OF wf assms(2), of "int data_points" itemsize channels]
    obtain b cs' where
      "get_data itemsize (int data_points) channels (map Recv cs) = Some (?res, b, map Recv cs')"
      "b @ concat cs' = concat (map packet_bytes ?later)"
      unfolding nat_int run by auto
    with False show ?thesis by blast
  next
    case True
    have "get_data_loop itemsize data_points channels
            \<lparr>data_stream = [], data = ?zeros, received_data_points = 0,
             data_socket = map Recv (map packet_bytes pkts)\<rparr>
        = Some (fst (run_packets itemsize data_points channels pkts (?zeros, 0)), [],
                map Recv (map packet_bytes
                  (snd (run_packets itemsize data_points channels pkts (?zeros, 0)))))"
      by (rule aligned_loop [OF assms(1)]) (simp_all add: assms(3))
    then have "get_data itemsize (int data_points) channels (map Recv cs)
                 = Some (?res, [], map Recv (map packet_bytes ?later))"
      unfolding run True by (simp add: get_data_def)
    then show ?thesis
      by (intro exI [of _ "[]"] exI [of _ "map packet_bytes ?later"]) simp
  qed
qed

theorem spanning_packets_witness:
  "get_data 4 4 [0, 1]
     (map Recv [scenario_header @ scenario_payload, scenario_header @ scenario_payload,
                scenario_header @ scenario_payload])
     = Some (Inr (Arr2 [[10, 11, 12, 10], [20, 21, 22, 20]]), [],
             map Recv [scenario_header @ scenario_payload])
   \<and> (\<exists>b cs'.
     get_data 4 4 [0, 1]
       (map Recv [scenario_header @ scenario_payload @ scenario_header,
                  scenario_payload @ scenario_header @ scenario_payload])
       = Some (Inr (Arr2 [[10, 11, 12, 10], [20, 21, 22, 20]]), b, map Recv cs')
     \<and> b @ concat cs' = scenario_header @ scenario_payload)"
proof
  have "\<exists>b cs'.
     get_data 4 4 [0, 1]
       (map Recv [scenario_header @ scenario_payload, scenario_header @ scenario_payload,
                  scenario_header @ scenario_payload])
       = Some (Inr (Arr2 [[10, 11, 12, 10], [20, 21, 22, 20]]), b, map Recv cs')
     \<and> b = [] \<and> cs' = [scenario_header @ scenario_payload]"
    using spanning_packets [of 4 "[0, 1]"
          "[(scenario_header, scenario_payload), (scenario_header, scenario_payload),
            (scenario_header, scenario_payload)]"
          "[scenario_header @ scenario_payload, scenario_header @ scenario_payload,
            scenario_header @ scenario_payload]" 4]
    by (simp add: scenario_readable scenario_rows scenario_four packet_bytes_def)
  then show "get_data 4 4 [0, 1]
     (map Recv [scenario_header @ scenario_payload, scenario_header @ scenario_payload,
                scenario_header @ scenario_payload])
     = Some (Inr (Arr2 [[10, 11, 12, 10], [20, 21, 22, 20]]), [],
             map Recv [scenario_header @ scenario_payload])"
    by auto
  show "\<exists>b cs'.
     get_data 4 4 [0, 1]
       (map Recv [scenario_header @ scenario_payload @ scenario_header,
                  scenario_payload @ scenario_header @ scenario_payload])
       = Some (Inr (Arr2 [[10, 11, 12, 10], [20, 21, 22, 20]]), b, map Recv cs')
     \<and> b @ concat cs' = scenario_header @ scenario_payload"
    using spanning_packets [of 4 "[0, 1]"
          "[(scenario_header, scenario_payload), (scenario_header, scenario_payload),
            (scenario_header, scenario_payload)]"
          "[scenario_header @ scenario_payload @ scenario_header,
            scenario_payload @ scenario_header @ scenario_payload]" 4]
    by (simp add: scenario_readable scenario_rows scenario_four packet_bytes_def)
qed

subsection \<open>The classification of a reply\<close>

text \<open>
  C6, as stated, fails: only trailing CR/LF would be stripped, so a reply that begins
  with CR LF does not start with \<open>$VER\<close> and would be malformed; \<open>command\<close> strips CR/LF
  at both ends and returns the success value. And a reply with a byte outside ASCII is
  not classified at all: the \<^verbatim>\<open>UnicodeDecodeError\<close> of \<^verbatim>\<open>decode\<close> escapes.
\<close>

theorem command_strips_leading_newlines:
  "\<not> prefix ''$VER'' ([CR, LF] @ ''$VEROK'')
   \<and> command (\<lambda>w. Some [0x0D, 0x0A, 0x24, 0x56, 0x45, 0x52, 0x4F, 0x4B, 0x0D, 0x0A]) ''VER''
       = Inr []
   \<and> command (\<lambda>w. Some [0xFF]) ''VER'' = Inl UnicodeDecodeError"
  by code_simp

text \<open>
  C6, amended. For a reply that decodes as ASCII, let \<open>resp\<close> be the reply without the
  CR/LF characters at its two ends and \<open>com\<close> the command without its CR/LF characters.
  If \<open>resp\<close> does not start with \<open>$\<close> followed by \<open>com\<close>, \<open>command\<close> raises the "Unexpected
  response" error. Otherwise, for the rest of \<open>resp\<close> after that prefix: a rest ending in
  \<open>OK\<close> is a success returning what stands before \<open>OK\<close>; the rest \<open>$UNKNOWN COMMAND\<close>
  raises "Unknown command"; the rest \<open>$WRONG PARAMETER\<close> raises "Wrong parameter"; any
  other rest raises "Unexpected response". A success value is never partial text: it is
  returned only when \<open>resp\<close> is \<open>$\<close>, \<open>com\<close>, the value and \<open>OK\<close>.
\<close>

theorem command_classification:
  assumes com: "com = py_remove LF (py_remove CR com0)"
    and enc: "encode_ascii com = Some cb"
    and io: "control_socket ([0x24] @ cb @ [0x0D, 0x0A]) = Some raw"
    and dec: "decode_ascii raw = Some (lead @ resp @ trail)"
    and lead: "set lead \<subseteq> {CR, LF}" and trail: "set trail \<subseteq> {CR, LF}"
    and core: "resp = [] \<or> (hd resp \<notin> {CR, LF} \<and> last resp \<notin> {CR, LF})"
  shows "(\<not> prefix (''$'' @ com) resp \<longrightarrow>
            command control_socket com0 = Inl (DeviceError (UnexpectedResponse resp)))
       \<and> (\<forall>mid. resp = ''$'' @ com @ mid @ ''OK'' \<longrightarrow>
            command control_socket com0 = Inr mid)
       \<and> (resp = ''$'' @ com @ ''$UNKNOWN COMMAND'' \<longrightarrow>
            command control_socket com0 = Inl (DeviceError (UnknownCommand com)))
       \<and> (resp = ''$'' @ com @ ''$WRONG PARAMETER'' \<longrightarrow>
            command control_socket com0 = Inl (DeviceError (WrongParameter com)))
       \<and> (\<forall>rest. resp = ''$'' @ com @ rest \<longrightarrow> \<not> suffix ''OK'' rest \<longrightarrow>
            rest \<noteq> ''$UNKNOWN COMMAND'' \<longrightarrow> rest \<noteq> ''$WRONG PARAMETER'' \<longrightarrow>
            command control_socket com0 = Inl (DeviceError (UnexpectedResponse rest)))
       \<and> (\<forall>out. command control_socket com0 = Inr out \<longrightarrow>
            resp = ''$'' @ com @ out @ ''OK'')"
proof -
  note nf = command_stripped [where control_socket = control_socket, OF assms]
  have a: "\<not> prefix (''$'' @ com) resp \<Longrightarrow>
             command control_socket com0 = Inl (DeviceError (UnexpectedResponse resp))"
    by (simp add: nf)
  have b: "command control_socket com0 = Inr mid" if "resp = ''$'' @ com @ mid @ ''OK''" for mid
    using that py_slice_upto_OK [of mid] by (simp add: nf suffix_def)
  have c: "resp = ''$'' @ com @ ''$UNKNOWN COMMAND'' \<Longrightarrow>
             command control_socket com0 = Inl (DeviceError (UnknownCommand com))"
    by (simp add: nf suffix_def)
  have d: "resp = ''$'' @ com @ ''$WRONG PARAMETER'' \<Longrightarrow>
             command control_socket com0 = Inl (DeviceError (WrongParameter com))"
    by (simp add: nf suffix_def)
  have e: "command control_socket com0 = Inl (DeviceError (UnexpectedResponse rest))"
    if "resp = ''$'' @ com @ rest" "\<not> suffix ''OK'' rest"
       "rest \<noteq> ''$UNKNOWN COMMAND''" "rest \<noteq> ''$WRONG PARAMETER''" for rest
    using that by (simp add: nf)
  have f: "resp = ''$'' @ com @ out @ ''OK''" if r: "command control_socket com0 = Inr out" for out
  proof -
    from r have p: "prefix (''$'' @ com) resp" and s: "suffix ''OK'' (drop (Suc (length com)) resp)"
      and t: "out = py_slice_upto (- 2) (drop (Suc (length com)) resp)"
      by (auto simp: nf split: if_splits)
    from p obtain rest where rest: "resp = (''$'' @ com) @ rest" by (auto simp: prefix_def)
    then have dr: "drop (Suc (length com)) resp = rest" by simp
    from s dr obtain mid where mid: "rest = mid @ ''OK''" by (auto simp: suffix_def)
    with t dr py_slice_upto_OK [of mid] have "out = mid" by simp
    with rest mid show ?thesis by simp
  qed
  from a b c d e f show ?thesis by blast
qed

theorem command_classification_witness:
  "command (\<lambda>w. Some reply_ok) ''VER'' = Inr ''1.2''
   \<and> command (\<lambda>w. Some reply_unknown) ''VER'' = Inl (DeviceError (UnknownCommand ''VER''))
   \<and> command (\<lambda>w. Some reply_partial) ''STS'' = Inl (DeviceError (UnexpectedResponse ''A1;''))
   \<and> command (\<lambda>w. Some reply_partial) ''VER'' = Inl (DeviceError (UnexpectedResponse ''$STSA1;''))"
proof (intro conjI)
  note t = command_classification
      [where control_socket = "\<lambda>w. Some reply_ok",
         OF clean_VER encode_VER refl decode_ok crlf_sub(1) crlf_sub(1) core_ok]
  from t [THEN conjunct2, THEN conjunct1, rule_format, of "''1.2''"]
  show "command (\<lambda>w. Some reply_ok) ''VER'' = Inr ''1.2''" by simp
next
  note t = command_classification
      [where control_socket = "\<lambda>w. Some reply_unknown",
         OF clean_VER encode_VER refl decode_unknown crlf_sub(2) crlf_sub(1) core_unknown]
  from t [THEN conjunct2, THEN conjunct2, THEN conjunct1, rule_format]
  show "command (\<lambda>w. Some reply_unknown) ''VER''
               = Inl (DeviceError (UnknownCommand ''VER''))" by simp
next
  note t = command_classification
      [where control_socket = "\<lambda>w. Some reply_partial",
         OF clean_STS encode_STS refl decode_partial crlf_sub(2) crlf_sub(1) core_partial]
  from t [THEN conjunct2, THEN conjunct2, THEN conjunct2, THEN conjunct2, THEN conjunct1,
          rule_format, of "''A1;''"]
  show "command (\<lambda>w. Some reply_partial) ''STS''
          = Inl (DeviceError (UnexpectedResponse ''A1;''))"
    by (simp add: suffix_to_prefix)
next
  note t = command_classification
      [where control_socket = "\<lambda>w. Some reply_partial",
         OF clean_VER encode_VER refl decode_partial crlf_sub(2) crlf_sub(1) core_partial]
  from t [THEN conjunct1, rule_format]
  show "command (\<lambda>w. Some reply_partial) ''VER''
               = Inl (DeviceError (UnexpectedResponse ''$STSA1;''))" by simp
qed

subsection \<open>The fields of the header\<close>

text \<open>
  C2, as stated, fails on two headers in which the two 16-bit fields hold the same value,
  so that their order plays no part. With \<open>0xFFFF\<close> in both fields \<open>inspect_header\<close>
  returns \<open>-1\<close> and \<open>-1\<close>, not 65535. With the group \<open>11\<close> in the presence field it counts
  two channels, where no group is equal to \<open>01\<close>.
\<close>

theorem inspect_header_not_as_claimed:
  "inspect_header negative_header = Inr (2, - 1, - 1, 1)
     \<and> claimed_fields negative_header = (2, 65535, 65535, 4294836225)
   \<and> inspect_header pair11_header = Inr (2, 8, 8, 64)
     \<and> claimed_fields pair11_header = (0, 8, 8, 64)"
  by code_simp

text \<open>
  C2, amended. For every input of at least 32 bytes \<open>inspect_header\<close> succeeds, without
  validating any field, and returns: as number of frames and as bytes per frame the two
  signed 16-bit little-endian integers at the byte offsets 24 and 26 (which of the two
  offsets holds which is not part of this statement), as payload size their product, and
  as number of channels the number of 1 bits in the absolute value of the presence field
  at offset 12 read as a signed 64-bit little-endian integer. That number is the number of
  2-bit groups equal to \<open>01\<close> whenever every group of the presence field is \<open>00\<close> or \<open>01\<close>.
\<close>

theorem inspect_header_fields:
  assumes "32 \<le> length b"
  shows "\<exists>nr_of_frames bytes_per_frame.
           inspect_header b =
             Inr (int (ones (nat \<bar>presence_signed b\<bar>)), nr_of_frames, bytes_per_frame,
                  bytes_per_frame * nr_of_frames)
         \<and> (nr_of_frames = sint16_at 24 b \<and> bytes_per_frame = sint16_at 26 b
            \<or> nr_of_frames = sint16_at 26 b \<and> bytes_per_frame = sint16_at 24 b)
         \<and> (list_all (\<lambda>k. presence_group b k \<le> 1) [0..<32] \<longrightarrow>
              ones (nat \<bar>presence_signed b\<bar>) = groups_01 b)"
  using inspect_header_unpacked [OF assms] valid_field_count by auto

theorem inspect_header_fields_witness:
  "\<exists>nr_of_frames bytes_per_frame.
     inspect_header scenario_header = Inr (2, nr_of_frames, bytes_per_frame, 24)
   \<and> (nr_of_frames = 8 \<and> bytes_per_frame = 3 \<or> nr_of_frames = 3 \<and> bytes_per_frame = 8)
   \<and> groups_01 scenario_header = 2"
proof -
  from inspect_header_fields [OF scenario_length] obtain nf bpf where
    h: "inspect_header scenario_header =
          Inr (int (ones (nat \<bar>presence_signed scenario_header\<bar>)), nf, bpf, bpf * nf)"
       "nf = sint16_at 24 scenario_header \<and> bpf = sint16_at 26 scenario_header
        \<or> nf = sint16_at 26 scenario_header \<and> bpf = sint16_at 24 scenario_header"
       "list_all (\<lambda>k. presence_group scenario_header k \<le> 1) [0..<32] \<longrightarrow>
          ones (nat \<bar>presence_signed scenario_header\<bar>) = groups_01 scenario_header"
    by blast
  from h(3) scenario_groups_valid scenario_groups
  have c: "ones (nat \<bar>presence_signed scenario_header\<bar>) = 2" by simp
  from h(2) have p: "bpf * nf = 24" and d: "nf = 8 \<and> bpf = 3 \<or> nf = 3 \<and> bpf = 8"
    by (auto simp: scenario_sint16)
  from h(1) c p d scenario_groups show ?thesis by auto
qed

end
